theory Spec2Isabelle
  imports Main
begin

section \<open>Scope\<close>

text \<open>
  The phase-synchronised batch executor of \<^verbatim>\<open>src/js/phaseSyncedSettle.js\<close>: the
  class \<^verbatim>\<open>PhaseSyncer\<close> and the exported function. JavaScript runs the coordinator
  and the job functions on one thread: a piece of code runs without interruption up to
  its next \<^verbatim>\<open>await\<close>, and \<^verbatim>\<open>EventEmitter.emit\<close> calls the listeners before it
  returns. A run is therefore a sequence of turns, each the uninterrupted piece of one
  job function, and the model is a step function on the state of the closure together
  with a schedule that names the job of each turn. The libraries are taken at their
  documented behaviour: \<^verbatim>\<open>p-event\<close> resolves on the first event emitted after the
  listener was attached, \<^verbatim>\<open>p-finally\<close> runs its callback once when the promise has
  settled, either way, and keeps the outcome, \<^verbatim>\<open>p-settle\<close> resolves when all
  promises have settled, to their outcomes in the order given. \<^verbatim>\<open>debug_log\<close> only
  prints and is left out.
\<close>

section \<open>JavaScript containers used by the coordinator\<close>

text \<open>
  \<^verbatim>\<open>Array.prototype.slice\<close> clamps its integer arguments: a negative index counts
  from the end and never goes below 0, a non-negative one never goes beyond the length.
\<close>

definition rel_index :: "int \<Rightarrow> nat \<Rightarrow> nat" where
  "rel_index k n = (if k < 0 then nat (max (int n + k) 0) else min (nat k) n)"

definition slice_js :: "'a list \<Rightarrow> int \<Rightarrow> int \<Rightarrow> 'a list" where
  "slice_js xs b e =
     (let n = length xs; lo = rel_index b n; hi = rel_index e n
      in take (hi - lo) (drop lo xs))"

definition slice_from :: "'a list \<Rightarrow> int \<Rightarrow> 'a list" where
  "slice_from xs b = drop (rel_index b (length xs)) xs"

text \<open>
  A JavaScript \<^verbatim>\<open>Set\<close> iterates in insertion order and holds no duplicates: it is
  modelled as a list. \<^verbatim>\<open>new Set(iterable)\<close> keeps the first occurrence of each
  element, \<^verbatim>\<open>delete\<close> removes the element wherever it stands.
\<close>

definition new_Set :: "'a list \<Rightarrow> 'a list" where
  "new_Set xs = rev (remdups (rev xs))"

definition set_delete :: "'a \<Rightarrow> 'a list \<Rightarrow> 'a list" where
  "set_delete x xs = removeAll x xs"

section \<open>Data model of \<^verbatim>\<open>src/js/phaseSyncedSettle.js\<close>\<close>

text \<open>
  Job identities: the source draws one \<^verbatim>\<open>uuidv1()\<close> per handle. The model
  numbers the handles by their position in the job list, which keeps what the source
  relies on (identities are pairwise different) and makes \<^verbatim>\<open>jobMap\<close> a list
  indexed by identity, in insertion order.
\<close>

type_synonym job_id = nat

text \<open>The events sent on the two kinds of emitters, in the order they are emitted.\<close>

datatype event = Ready job_id | StepDone job_id nat | JobDone job_id

text \<open>An element of an argument array: the handle the constructor prepends, or a
  value of the caller.\<close>

datatype 'v jsval = Handle job_id | Val 'v

text \<open>What \<^verbatim>\<open>p-settle\<close> reports for one promise.\<close>

datatype ('a, 'e) settled = Fulfilled 'a | Rejected 'e

text \<open>
  A job function is asynchronous code of the caller. Its run is a sequence of
  suspension points, each either \<^verbatim>\<open>await ps.phase()\<close> or an await of
  something else, followed by the value it returns or the reason it throws. The function
  receives the argument array, so its run may depend on it.
\<close>

datatype action = Await | Phase

type_synonym ('a, 'e) behaviour = "action list \<times> ('a, 'e) settled"

type_synonym ('v, 'a, 'e) jobfun = "'v jsval list \<Rightarrow> ('a, 'e) behaviour"

text \<open>
  One \<^verbatim>\<open>PhaseSyncer\<close> with the run of its job function:
  \<^item> \<open>phaseCntr\<close> is the field of the source;
  \<^item> \<open>listening\<close> says that a \<^verbatim>\<open>pEvent(this.jobEmitter, 'ready')\<close> listener is
    attached, that is, the job function is suspended in \<^verbatim>\<open>await ps.phase()\<close>;
  \<^item> \<open>finallyRan\<close> says that the callback given to \<^verbatim>\<open>pFinally\<close> has run;
  \<^item> \<open>jobPromise\<close>, the promise that \<^verbatim>\<open>pFinally\<close> returns, is \<open>None\<close> while it is
    pending and holds its outcome once it has settled, which is some time after the
    callback has run;
  \<^item> \<open>todo\<close> is what the job function still has to do and \<open>outcome\<close> how it ends.
\<close>

record ('a, 'e) job =
  phaseCntr :: nat
  listening :: bool
  finallyRan :: bool
  jobPromise :: "('a, 'e) settled option"
  todo :: "action list"
  outcome :: "('a, 'e) settled"

text \<open>
  The closure of the exported function: the handles, the three sets of the coordinator,
  the option \<open>concurrency\<close>, and the events emitted so far. \<open>crashed\<close> records that
  \<^verbatim>\<open>jobMap.get(id)\<close> was \<^verbatim>\<open>undefined\<close> where the source dereferences it (a
  TypeError).
\<close>

record ('a, 'e) sys =
  jobMap :: "('a, 'e) job list"
  jobs :: "job_id list"
  queuedJobs :: "job_id list"
  phasePendingJobs :: "job_id list"
  concurrency :: int
  emitted :: "event list"
  crashed :: bool

section \<open>The coordinator\<close>

text \<open>
  \<^verbatim>\<open>jobMap.get(id).jobEmitter.emit('ready')\<close>: the listener of \<^verbatim>\<open>p-event\<close>, if
  one is attached, resolves its promise and detaches; with no listener the event is lost.
\<close>

definition emit_ready :: "job_id \<Rightarrow> ('a, 'e) sys \<Rightarrow> ('a, 'e) sys" where
  "emit_ready i s =
     (if i < length (jobMap s)
      then s\<lparr>jobMap := (jobMap s)[i := (jobMap s ! i)\<lparr>listening := False\<rparr>],
             emitted := emitted s @ [Ready i]\<rparr>
      else s\<lparr>crashed := True\<rparr>)"

definition startNewPhase :: "('a, 'e) sys \<Rightarrow> ('a, 'e) sys" where
  "startNewPhase s =
     (let jobList = jobs s;
          s1 = fold emit_ready (slice_js jobList 0 (concurrency s)) s
      in s1\<lparr>queuedJobs := new_Set (slice_from jobList (concurrency s)),
             phasePendingJobs := new_Set (jobs s1)\<rparr>)"

definition startQueuedJob :: "('a, 'e) sys \<Rightarrow> ('a, 'e) sys" where
  "startQueuedJob s =
     (case queuedJobs s of
        [] \<Rightarrow> s
      | i # _ \<Rightarrow>
          (let s1 = emit_ready i s
           in s1\<lparr>queuedJobs := set_delete i (queuedJobs s1)\<rparr>))"

definition on_stepDone :: "job_id \<Rightarrow> nat \<Rightarrow> ('a, 'e) sys \<Rightarrow> ('a, 'e) sys" where
  "on_stepDone i stepnr s =
     (let s1 = s\<lparr>phasePendingJobs := set_delete i (phasePendingJobs s)\<rparr>
      in if length (phasePendingJobs s1) = 0 then startNewPhase s1 else startQueuedJob s1)"

definition on_jobDone :: "job_id \<Rightarrow> ('a, 'e) sys \<Rightarrow> ('a, 'e) sys" where
  "on_jobDone i s =
     (let s1 = s\<lparr>jobs := set_delete i (jobs s),
                  queuedJobs := set_delete i (queuedJobs s),
                  phasePendingJobs := set_delete i (phasePendingJobs s)\<rparr>
      in if length (phasePendingJobs s1) = 0 then startNewPhase s1 else startQueuedJob s1)"

text \<open>\<^verbatim>\<open>ctrlEmitter.emit\<close> runs the listener synchronously, before it returns.\<close>

definition emit_stepDone :: "job_id \<Rightarrow> nat \<Rightarrow> ('a, 'e) sys \<Rightarrow> ('a, 'e) sys" where
  "emit_stepDone i stepnr s = on_stepDone i stepnr (s\<lparr>emitted := emitted s @ [StepDone i stepnr]\<rparr>)"

definition emit_jobDone :: "job_id \<Rightarrow> ('a, 'e) sys \<Rightarrow> ('a, 'e) sys" where
  "emit_jobDone i s = on_jobDone i (s\<lparr>emitted := emitted s @ [JobDone i]\<rparr>)"

section \<open>The handle\<close>

text \<open>\<^verbatim>\<open>PhaseSyncer.phase\<close> of handle \<open>i\<close>: attach the listener, announce the step
  unless this is the first call, count.\<close>

definition phase :: "job_id \<Rightarrow> ('a, 'e) sys \<Rightarrow> ('a, 'e) sys" where
  "phase i s =
     (let s1 = s\<lparr>jobMap := (jobMap s)[i := (jobMap s ! i)\<lparr>listening := True\<rparr>]\<rparr>;
          s2 = (if phaseCntr (jobMap s1 ! i) > 0
                then emit_stepDone i (phaseCntr (jobMap s1 ! i)) s1 else s1)
      in s2\<lparr>jobMap := (jobMap s2)[i := (jobMap s2 ! i)\<lparr>phaseCntr := phaseCntr (jobMap s2 ! i) + 1\<rparr>]\<rparr>)"

text \<open>
  One turn of the job function of handle \<open>i\<close>. A job that is suspended at a phase
  boundary, or whose promise has settled, has nothing to run. When the function has
  returned or thrown, the next turn is that of the \<^verbatim>\<open>pFinally\<close> callback, which
  emits \<^verbatim>\<open>jobDone\<close>; in a later turn, after turns of other jobs perhaps,
  \<^verbatim>\<open>jobPromise\<close> settles with the outcome of the function. A job function awaits
  every call of \<^verbatim>\<open>phase\<close>, as its contract says.
\<close>

definition job_step :: "job_id \<Rightarrow> ('a, 'e) sys \<Rightarrow> ('a, 'e) sys" where
  "job_step i s =
     (if i < length (jobMap s) then
        (let j = jobMap s ! i in
         if listening j then s
         else (case jobPromise j of
                 Some r \<Rightarrow> s
               | None \<Rightarrow>
                  (case todo j of
                     [] \<Rightarrow>
                       (if finallyRan j
                        then s\<lparr>jobMap := (jobMap s)[i := j\<lparr>jobPromise := Some (outcome j)\<rparr>]\<rparr>
                        else emit_jobDone i (s\<lparr>jobMap := (jobMap s)[i := j\<lparr>finallyRan := True\<rparr>]\<rparr>))
                   | Await # rest \<Rightarrow> s\<lparr>jobMap := (jobMap s)[i := j\<lparr>todo := rest\<rparr>]\<rparr>
                   | Phase # rest \<Rightarrow> phase i (s\<lparr>jobMap := (jobMap s)[i := j\<lparr>todo := rest\<rparr>]\<rparr>))))
      else s)"

text \<open>A schedule names, turn by turn, the job whose function runs next.\<close>

definition run :: "job_id list \<Rightarrow> ('a, 'e) sys \<Rightarrow> ('a, 'e) sys" where
  "run sched s = fold job_step sched s"

section \<open>Construction\<close>

text \<open>
  The constructor of \<^verbatim>\<open>PhaseSyncer\<close>: \<^verbatim>\<open>args.unshift(this)\<close> writes into the
  array of the caller, held in a store of arrays by address; \<^verbatim>\<open>fun(...args)\<close>
  then runs the job function up to its first suspension point, which is inside
  \<^verbatim>\<open>phase\<close> when the function starts with \<^verbatim>\<open>await ps.phase()\<close>.
\<close>

type_synonym 'v store = "nat \<Rightarrow> 'v jsval list"

definition PhaseSyncer_new ::
  "('v, 'a, 'e) jobfun \<times> nat \<Rightarrow> ('a, 'e) sys \<times> 'v store \<Rightarrow> ('a, 'e) sys \<times> 'v store" where
  "PhaseSyncer_new d p =
     (case d of (f, args) \<Rightarrow> case p of (s, st) \<Rightarrow>
        (let i = length (jobMap s);
             st1 = st(args := Handle i # st args);
             b = f (st1 args);
             j = \<lparr>phaseCntr = 0, listening = False, finallyRan = False, jobPromise = None,
                  todo = fst b, outcome = snd b\<rparr>;
             s1 = s\<lparr>jobMap := jobMap s @ [j]\<rparr>
         in (case fst b of
               Phase # rest \<Rightarrow> phase i (s1\<lparr>jobMap := (jobMap s1)[i := j\<lparr>todo := rest\<rparr>]\<rparr>)
             | _ \<Rightarrow> s1,
             st1)))"

text \<open>
  The exported function, with the option \<open>concurrency\<close> as the caller gave it (the source
  takes 1 when the option is absent): the constructors in the order of the job list, the
  set of all identities, the initial \<open>startNewPhase\<close>. The result is the closure, from
  which \<open>aggregate\<close> reads the promise returned, and the arrays of the caller.
\<close>

definition phaseSyncedSettle ::
  "(('v, 'a, 'e) jobfun \<times> nat) list \<Rightarrow> int \<Rightarrow> 'v store \<Rightarrow> ('a, 'e) sys \<times> 'v store" where
  "phaseSyncedSettle jobList c st =
     (let p = fold PhaseSyncer_new jobList
                (\<lparr>jobMap = [], jobs = [], queuedJobs = [], phasePendingJobs = [],
                  concurrency = c, emitted = [], crashed = False\<rparr>, st);
          s0 = fst p;
          s1 = s0\<lparr>jobs := new_Set [0..<length (jobMap s0)]\<rparr>
      in (startNewPhase s1, snd p))"

text \<open>\<^verbatim>\<open>pSettle\<close> over the promises of the handles, in the order of \<^verbatim>\<open>jobMap\<close>:
  pending (\<open>None\<close>) until every promise has settled.\<close>

definition aggregate :: "('a, 'e) sys \<Rightarrow> ('a, 'e) settled list option" where
  "aggregate s = those (map jobPromise (jobMap s))"

section \<open>Notions used in the statements and proofs\<close>

text \<open>The number of jobs \<open>startNewPhase\<close> releases: where both of its slices cut the snapshot.\<close>

definition cap :: "('a, 'e) sys \<Rightarrow> nat" where
  "cap s = rel_index (concurrency s) (length (jobs s))"

text \<open>The common end of both listeners of \<open>ctrlEmitter\<close>: start a new phase when nothing is pending, else release one queued job.\<close>

definition advance :: "('a, 'e) sys \<Rightarrow> ('a, 'e) sys" where
  "advance s = (if length (phasePendingJobs s) = 0 then startNewPhase s else startQueuedJob s)"

text \<open>The jobs to which \<open>advance\<close> emits \<open>ready\<close>.\<close>

definition woken :: "('a, 'e) sys \<Rightarrow> job_id list" where
  "woken s = (if phasePendingJobs s = [] then take (cap s) (jobs s) else take 1 (queuedJobs s))"

text \<open>The state in which the listener of \<open>stepDone\<close> decides: job \<open>i\<close> has attached its listener and emitted \<open>stepDone\<close>, and has been deleted from \<open>phasePendingJobs\<close>.\<close>

definition announce :: "job_id \<Rightarrow> ('a, 'e) sys \<Rightarrow> ('a, 'e) sys" where
  "announce i s =
     s\<lparr>jobMap := (jobMap s)[i := (jobMap s ! i)\<lparr>listening := True\<rparr>],
       emitted := emitted s @ [StepDone i (phaseCntr (jobMap s ! i))],
       phasePendingJobs := removeAll i (phasePendingJobs s)\<rparr>"

text \<open>The state in which the listener of \<open>jobDone\<close> decides: the callback of job \<open>i\<close> has run and emitted \<open>jobDone\<close>, and has been deleted from the three sets.\<close>

definition retire :: "job_id \<Rightarrow> ('a, 'e) sys \<Rightarrow> ('a, 'e) sys" where
  "retire i s =
     s\<lparr>jobMap := (jobMap s)[i := (jobMap s ! i)\<lparr>finallyRan := True\<rparr>],
       emitted := emitted s @ [JobDone i],
       jobs := removeAll i (jobs s),
       queuedJobs := removeAll i (queuedJobs s),
       phasePendingJobs := removeAll i (phasePendingJobs s)\<rparr>"

text \<open>A job function that can take a turn: not suspended at a phase boundary, not finished.\<close>

definition runnable :: "('a, 'e) sys \<Rightarrow> job_id \<Rightarrow> bool" where
  "runnable s i = (i < length (jobMap s) \<and> \<not> listening (jobMap s ! i) \<and> jobPromise (jobMap s ! i) = None)"

text \<open>An example state: three jobs suspended at their second phase boundary, nothing pending.\<close>

definition three_waiting :: "(nat, nat) sys" where
  "three_waiting =
     \<lparr>jobMap = replicate 3 \<lparr>phaseCntr = 1, listening = True, finallyRan = False, jobPromise = None,
                               todo = [Phase], outcome = Fulfilled 0\<rparr>,
      jobs = [0, 1, 2], queuedJobs = [], phasePendingJobs = [], concurrency = 2, emitted = [], crashed = False\<rparr>"

text \<open>The argument array as the \<open>i\<close>-th job function receives it: its own handle, the handles of the earlier descriptors that name the same array (latest first), the content the caller gave.\<close>

definition args_seen :: "(('v, 'a, 'e) jobfun \<times> nat) list \<Rightarrow> 'v store \<Rightarrow> nat \<Rightarrow> 'v jsval list" where
  "args_seen jl st i =
     Handle i # map Handle (rev (filter (\<lambda>k. snd (jl ! k) = snd (jl ! i)) [0..<i])) @ st (snd (jl ! i))"

text \<open>The handle of a job right after its constructor: suspended in \<open>phase\<close> with the counter at 1 when the function starts with \<^verbatim>\<open>await ps.phase()\<close>, untouched otherwise.\<close>

definition boot :: "('a, 'e) behaviour \<Rightarrow> ('a, 'e) job" where
  "boot b =
     (case fst b of
        Phase # rest \<Rightarrow> \<lparr>phaseCntr = 1, listening = True, finallyRan = False, jobPromise = None,
                         todo = rest, outcome = snd b\<rparr>
      | _ \<Rightarrow> \<lparr>phaseCntr = 0, listening = False, finallyRan = False, jobPromise = None,
                todo = fst b, outcome = snd b\<rparr>)"

text \<open>The handles of a job list after the constructors, in the order of the list.\<close>

definition handles :: "(('v, 'a, 'e) jobfun \<times> nat) list \<Rightarrow> 'v store \<Rightarrow> ('a, 'e) job list" where
  "handles jl st = map (\<lambda>i. boot (fst (jl ! i) (args_seen jl st i))) [0..<length jl]"

text \<open>The arrays of the caller after the constructors: each holds, before its old content, the handles of the descriptors that name it, latest first.\<close>

definition arrays_after :: "(('v, 'a, 'e) jobfun \<times> nat) list \<Rightarrow> 'v store \<Rightarrow> 'v store" where
  "arrays_after jl st = (\<lambda>r. map Handle (rev (filter (\<lambda>k. snd (jl ! k) = r) [0..<length jl])) @ st r)"

text \<open>The closure right before the initial call of \<open>startNewPhase\<close>.\<close>

definition before_start :: "(('v, 'a, 'e) jobfun \<times> nat) list \<Rightarrow> int \<Rightarrow> 'v store \<Rightarrow> ('a, 'e) sys" where
  "before_start jl c st =
     \<lparr>jobMap = handles jl st, jobs = [0..<length jl], queuedJobs = [], phasePendingJobs = [],
      concurrency = c, emitted = [], crashed = False\<rparr>"

text \<open>The notification that the turn of job \<open>k\<close> sends to the coordinator, if any.\<close>

definition notice :: "job_id \<Rightarrow> ('a, 'e) sys \<Rightarrow> event list" where
  "notice k s =
     (if runnable s k then
        (case todo (jobMap s ! k) of
           [] \<Rightarrow> (if finallyRan (jobMap s ! k) then [] else [JobDone k])
         | Await # _ \<Rightarrow> []
         | Phase # _ \<Rightarrow> (if 0 < phaseCntr (jobMap s ! k) then [StepDone k (phaseCntr (jobMap s ! k))] else []))
      else [])"

text \<open>\<open>jobDone i\<close> has been emitted once for a job whose \<^verbatim>\<open>pFinally\<close> callback has run
  and never for another; the callback runs when the function has come to its end; a
  promise settles after the callback.\<close>

definition callback_once :: "('a, 'e) sys \<Rightarrow> bool" where
  "callback_once s =
     (\<forall>i < length (jobMap s).
        count_list (emitted s) (JobDone i) = (if finallyRan (jobMap s ! i) then 1 else 0)
        \<and> (finallyRan (jobMap s ! i) \<longrightarrow> todo (jobMap s ! i) = [] \<and> \<not> listening (jobMap s ! i))
        \<and> (jobPromise (jobMap s ! i) \<noteq> None \<longrightarrow> finallyRan (jobMap s ! i)))"

text \<open>Example job functions: two phase boundaries and success, the same with a failure at the end, and one that never calls \<open>phase\<close>.\<close>

definition two_phase_job :: "(nat, nat, nat) jobfun" where
  "two_phase_job = (\<lambda>args. ([Phase, Phase], Fulfilled 7))"

definition failing_job :: "(nat, nat, nat) jobfun" where
  "failing_job = (\<lambda>args. ([Phase, Phase], Rejected 3))"

definition plain_job :: "(nat, nat, nat) jobfun" where
  "plain_job = (\<lambda>args. ([Await], Fulfilled 9))"

text \<open>A store of empty argument arrays.\<close>

definition no_arrays :: "nat store" where
  "no_arrays = (\<lambda>address. [])"

text \<open>Three jobs of two phases, the third failing, and a schedule that runs them to the end under \<open>concurrency = 2\<close>.\<close>

definition demo_jobs :: "((nat, nat, nat) jobfun \<times> nat) list" where
  "demo_jobs = [(two_phase_job, 0), (two_phase_job, 1), (failing_job, 2)]"

definition demo_schedule :: "job_id list" where
  "demo_schedule = [0, 1, 2, 2, 0, 1, 2, 0, 1, 2]"

text \<open>A settled promise holds the outcome of its job function.\<close>

definition promise_kept :: "('a, 'e) sys \<Rightarrow> bool" where
  "promise_kept s =
     (\<forall>i < length (jobMap s).
        jobPromise (jobMap s ! i) = None \<or> jobPromise (jobMap s ! i) = Some (outcome (jobMap s ! i)))"

text \<open>The jobs to which the coordinator emits \<open>ready\<close> in answer to the notification of a turn of job \<open>k\<close>.\<close>

definition answer :: "job_id \<Rightarrow> ('a, 'e) sys \<Rightarrow> job_id list" where
  "answer k s =
     (if runnable s k then
        (case todo (jobMap s ! k) of
           [] \<Rightarrow> (if finallyRan (jobMap s ! k) then []
                  else filter (\<lambda>i. i < length (jobMap s)) (woken (retire k s)))
         | Await # _ \<Rightarrow> []
         | Phase # _ \<Rightarrow> (if 0 < phaseCntr (jobMap s ! k)
                         then filter (\<lambda>i. i < length (jobMap s)) (woken (announce k s)) else []))
      else [])"

text \<open>Two jobs that never call \<open>phase\<close>.\<close>

definition plain_jobs :: "((nat, nat, nat) jobfun \<times> nat) list" where
  "plain_jobs = [(plain_job, 0), (plain_job, 1)]"

text \<open>Three jobs: one of two phases, one that never calls \<open>phase\<close>, one of two phases
  that fails.\<close>

definition mixed_jobs :: "((nat, nat, nat) jobfun \<times> nat) list" where
  "mixed_jobs = [(two_phase_job, 0), (plain_job, 1), (failing_job, 2)]"

text \<open>A store in which the array at each address holds one value of the caller.\<close>

definition caller_arrays :: "nat store" where
  "caller_arrays = (\<lambda>address. [Val address])"

text \<open>As \<open>announce\<close>, with the turn of job \<open>k\<close> already complete on its handle (the counter advanced, the call consumed): \<open>advance\<close> neither reads nor writes these fields.\<close>

definition step_mid :: "job_id \<Rightarrow> ('a, 'e) sys \<Rightarrow> ('a, 'e) sys" where
  "step_mid k s =
     s\<lparr>jobMap := (jobMap s)[k := (jobMap s ! k)\<lparr>todo := tl (todo (jobMap s ! k)), listening := True,
                                                phaseCntr := phaseCntr (jobMap s ! k) + 1\<rparr>],
       emitted := emitted s @ [StepDone k (phaseCntr (jobMap s ! k))],
       phasePendingJobs := removeAll k (phasePendingJobs s)\<rparr>"

text \<open>
  The invariant of the runs, for the \<open>g\<close>-th phase of the coordinator (from 0): the
  coordinator has not thrown; \<open>jobs\<close> is a set, of exactly the jobs whose
  \<^verbatim>\<open>pFinally\<close> callback has not run, and the callback runs at the end of the function;
  \<open>queuedJobs\<close> is within \<open>phasePendingJobs\<close>, which is within \<open>jobs\<close>; a job that is
  not pending is suspended at its next boundary with its counter at \<open>g + 2\<close>; a pending
  job has its counter at \<open>g + 1\<close> (or still at 0 in the first phase, when its function
  has not reached its first boundary); a queued job is suspended or has not reached its
  first boundary.
\<close>

definition lockstep :: "nat \<Rightarrow> ('a, 'e) sys \<Rightarrow> bool" where
  "lockstep g s =
     (\<not> crashed s \<and> distinct (jobs s) \<and>
      (\<forall>i. i \<in> set (jobs s) \<longleftrightarrow> i < length (jobMap s) \<and> \<not> finallyRan (jobMap s ! i)) \<and>
      (\<forall>i < length (jobMap s). finallyRan (jobMap s ! i) \<longrightarrow> todo (jobMap s ! i) = []) \<and>
      set (queuedJobs s) \<subseteq> set (phasePendingJobs s) \<and>
      set (phasePendingJobs s) \<subseteq> set (jobs s) \<and>
      (\<forall>i \<in> set (jobs s) - set (phasePendingJobs s).
          listening (jobMap s ! i) \<and> phaseCntr (jobMap s ! i) = g + 2) \<and>
      (\<forall>i \<in> set (phasePendingJobs s).
          phaseCntr (jobMap s ! i) = g + 1 \<or> (g = 0 \<and> phaseCntr (jobMap s ! i) = 0)) \<and>
      (\<forall>i \<in> set (queuedJobs s). listening (jobMap s ! i) \<or> phaseCntr (jobMap s ! i) = 0))"

text \<open>\<open>stepDone i m\<close> has been emitted exactly once for each boundary \<open>m\<close> (from 1) that job \<open>i\<close> has crossed, and never otherwise.\<close>

definition announced :: "('a, 'e) sys \<Rightarrow> bool" where
  "announced s =
     (\<forall>i < length (jobMap s). \<forall>m.
        count_list (emitted s) (StepDone i m) = (if 0 < m \<and> m < phaseCntr (jobMap s ! i) then 1 else 0))"


text \<open>
  Reading a trace from the left for job \<open>i\<close>: \<open>unreported i r tr\<close> says whether, after
  \<open>tr\<close>, the last \<open>ready\<close> sent to \<open>i\<close> is still unanswered by a \<open>stepDone\<close> or
  \<open>jobDone\<close> of \<open>i\<close> (\<open>r\<close> says so for the events before \<open>tr\<close>); \<open>ready_ok i r tr\<close>
  says that no \<open>ready\<close> in \<open>tr\<close> is sent to \<open>i\<close> while the previous one is unanswered.
\<close>

fun unreported :: "job_id \<Rightarrow> bool \<Rightarrow> event list \<Rightarrow> bool" where
  "unreported i r [] = r"
| "unreported i r (Ready k # tr) = unreported i (r \<or> k = i) tr"
| "unreported i r (StepDone k n # tr) = unreported i (r \<and> k \<noteq> i) tr"
| "unreported i r (JobDone k # tr) = unreported i (r \<and> k \<noteq> i) tr"

fun ready_ok :: "job_id \<Rightarrow> bool \<Rightarrow> event list \<Rightarrow> bool" where
  "ready_ok i r [] = True"
| "ready_ok i r (Ready k # tr) = (if k = i then \<not> r \<and> ready_ok i True tr else ready_ok i r tr)"
| "ready_ok i r (StepDone k n # tr) = ready_ok i (r \<and> k \<noteq> i) tr"
| "ready_ok i r (JobDone k # tr) = ready_ok i (r \<and> k \<noteq> i) tr"

text \<open>The trace holds a \<open>stepDone\<close> or a \<open>jobDone\<close> of job \<open>i\<close>.\<close>

definition reported :: "job_id \<Rightarrow> event list \<Rightarrow> bool" where
  "reported i tr = ((\<exists>n. StepDone i n \<in> set tr) \<or> JobDone i \<in> set tr)"

text \<open>No job was sent \<open>ready\<close> twice without a report in between, and a job whose last \<open>ready\<close> is unanswered is pending and not queued.\<close>

definition release_inv :: "('a, 'e) sys \<Rightarrow> bool" where
  "release_inv s =
     (\<forall>i. ready_ok i False (emitted s) \<and>
          (unreported i False (emitted s) \<longrightarrow>
             i \<in> set (phasePendingJobs s) \<and> i \<notin> set (queuedJobs s)))"

text \<open>
  What is left of a job, and of a state, when the values and reasons of the outcomes are
  forgotten: everything the coordinator and the other jobs can depend on.
\<close>

definition forget_job :: "('a, 'e) job \<Rightarrow> (unit, unit) job" where
  "forget_job j =
     \<lparr>phaseCntr = phaseCntr j, listening = listening j, finallyRan = finallyRan j,
      jobPromise = map_option (\<lambda>r. Fulfilled ()) (jobPromise j),
      todo = todo j, outcome = Fulfilled ()\<rparr>"

definition forget :: "('a, 'e) sys \<Rightarrow> (unit, unit) sys" where
  "forget s =
     \<lparr>jobMap = map forget_job (jobMap s), jobs = jobs s, queuedJobs = queuedJobs s,
      phasePendingJobs = phasePendingJobs s, concurrency = concurrency s,
      emitted = emitted s, crashed = crashed s\<rparr>"

text \<open>The example jobs with the failure of the third replaced by success.\<close>

definition calm_jobs :: "((nat, nat, nat) jobfun \<times> nat) list" where
  "calm_jobs = [(two_phase_job, 0), (two_phase_job, 1), (two_phase_job, 2)]"

text \<open>
  A job function keeps to the protocol of the phases from its start when it begins with
  \<^verbatim>\<open>await ps.phase()\<close>, so that it is listening when the initial \<open>startNewPhase\<close> emits
  \<open>ready\<close>, or never calls \<open>phase\<close> at all.
\<close>

definition protocol_start :: "action list \<Rightarrow> bool" where
  "protocol_start as = (take 1 as = [Phase] \<or> list_all (\<lambda>a. a = Await) as)"

text \<open>
  The turns a job has left: one for each piece of its function, one for the
  \<^verbatim>\<open>pFinally\<close> callback, one for the settling of \<open>jobPromise\<close>.
\<close>

definition job_work :: "('a, 'e) job \<Rightarrow> nat" where
  "job_work j = length (todo j) + (if finallyRan j then 0 else 1) + (if jobPromise j = None then 1 else 0)"

definition work :: "('a, 'e) sys \<Rightarrow> nat" where
  "work s = sum_list (map job_work (jobMap s))"

text \<open>
  No \<open>ready\<close> has been lost: a job that has not called \<open>phase\<close> yet never will, and a
  pending job that waits for \<open>ready\<close> is queued.
\<close>

definition tidy :: "('a, 'e) sys \<Rightarrow> bool" where
  "tidy s =
     ((\<forall>i < length (jobMap s). phaseCntr (jobMap s ! i) = 0 \<longrightarrow> list_all (\<lambda>a. a = Await) (todo (jobMap s ! i))) \<and>
      (\<forall>x \<in> set (phasePendingJobs s). listening (jobMap s ! x) \<longrightarrow> x \<in> set (queuedJobs s)))"

text \<open>As \<open>tidy\<close>, and as long as a job is active some pending job holds a slot.\<close>

definition orderly :: "('a, 'e) sys \<Rightarrow> bool" where
  "orderly s = (tidy s \<and> (jobs s \<noteq> [] \<longrightarrow> (\<exists>x \<in> set (phasePendingJobs s). x \<notin> set (queuedJobs s))))"

text \<open>
  A job function that rejects at once, one that reaches its first phase boundary only
  after another \<^verbatim>\<open>await\<close>, and the two as a job list.
\<close>

definition rejecting_job :: "(nat, nat, nat) jobfun" where
  "rejecting_job = (\<lambda>args. ([], Rejected 3))"

definition late_job :: "(nat, nat, nat) jobfun" where
  "late_job = (\<lambda>args. ([Await, Phase], Fulfilled 9))"

definition stuck_jobs :: "((nat, nat, nat) jobfun \<times> nat) list" where
  "stuck_jobs = [(rejecting_job, 0), (late_job, 1)]"

section \<open>Lemmas\<close>

subsection \<open>Slices and sets\<close>

lemma rel_index_le: "rel_index k n \<le> n"
  by (auto simp add: rel_index_def)

lemma rel_index_nonneg: "0 \<le> c \<Longrightarrow> rel_index c n = min (nat c) n"
  by (auto simp add: rel_index_def)

lemma slice_js_take: "slice_js xs 0 c = take (rel_index c (length xs)) xs"
  by (simp add: slice_js_def rel_index_def Let_def)

lemma slice_from_drop: "slice_from xs c = drop (rel_index c (length xs)) xs"
  by (simp add: slice_from_def)

lemma new_Set_distinct: "distinct xs \<Longrightarrow> new_Set xs = xs"
  by (simp add: new_Set_def distinct_remdups_id)

lemma set_new_Set: "set (new_Set xs) = set xs"
  by (simp add: new_Set_def)

lemma distinct_new_Set: "distinct (new_Set xs)"
  by (simp add: new_Set_def)

subsection \<open>Effects of the coordinator functions\<close>

lemma emit_ready_frame:
  "jobs (emit_ready i s) = jobs s"
  "queuedJobs (emit_ready i s) = queuedJobs s"
  "phasePendingJobs (emit_ready i s) = phasePendingJobs s"
  "concurrency (emit_ready i s) = concurrency s"
  "length (jobMap (emit_ready i s)) = length (jobMap s)"
  by (simp_all add: emit_ready_def)

lemma emit_ready_nth:
  "jobMap (emit_ready i s) ! x =
     (if x = i \<and> i < length (jobMap s) then (jobMap s ! x)\<lparr>listening := False\<rparr> else jobMap s ! x)"
  by (simp add: emit_ready_def)

lemma emit_ready_emitted:
  "emitted (emit_ready i s) = emitted s @ (if i < length (jobMap s) then [Ready i] else [])"
  by (simp add: emit_ready_def)

lemma emit_ready_crashed:
  "crashed (emit_ready i s) = (crashed s \<or> length (jobMap s) \<le> i)"
  by (auto simp add: emit_ready_def)

lemma fold_emit_ready_frame:
  "jobs (fold emit_ready is s) = jobs s"
  "queuedJobs (fold emit_ready is s) = queuedJobs s"
  "phasePendingJobs (fold emit_ready is s) = phasePendingJobs s"
  "concurrency (fold emit_ready is s) = concurrency s"
  "length (jobMap (fold emit_ready is s)) = length (jobMap s)"
  by (induction "is" arbitrary: s; simp add: emit_ready_frame)+

lemma fold_emit_ready_nth:
  "jobMap (fold emit_ready is s) ! x =
     (if x \<in> set is \<and> x < length (jobMap s) then (jobMap s ! x)\<lparr>listening := False\<rparr> else jobMap s ! x)"
  by (induction "is" arbitrary: s) (auto simp add: emit_ready_nth emit_ready_frame)

lemma fold_emit_ready_emitted:
  "emitted (fold emit_ready is s) = emitted s @ map Ready (filter (\<lambda>i. i < length (jobMap s)) is)"
  by (induction "is" arbitrary: s) (auto simp add: emit_ready_emitted emit_ready_frame)

lemma fold_emit_ready_crashed:
  "crashed (fold emit_ready is s) = (crashed s \<or> (\<exists>i\<in>set is. length (jobMap s) \<le> i))"
  by (induction "is" arbitrary: s) (auto simp add: emit_ready_crashed emit_ready_frame)

lemma startNewPhase_frame:
  "jobs (startNewPhase s) = jobs s"
  "concurrency (startNewPhase s) = concurrency s"
  "length (jobMap (startNewPhase s)) = length (jobMap s)"
  by (simp_all add: startNewPhase_def Let_def fold_emit_ready_frame)

lemma startNewPhase_sets:
  "queuedJobs (startNewPhase s) = new_Set (drop (cap s) (jobs s))"
  "phasePendingJobs (startNewPhase s) = new_Set (jobs s)"
  by (simp_all add: startNewPhase_def Let_def fold_emit_ready_frame slice_from_drop cap_def)

lemma startNewPhase_nth:
  "jobMap (startNewPhase s) ! x =
     (if x \<in> set (take (cap s) (jobs s)) \<and> x < length (jobMap s)
      then (jobMap s ! x)\<lparr>listening := False\<rparr> else jobMap s ! x)"
  by (simp add: startNewPhase_def Let_def fold_emit_ready_nth slice_js_take cap_def)

lemma startNewPhase_emitted:
  "emitted (startNewPhase s) =
     emitted s @ map Ready (filter (\<lambda>i. i < length (jobMap s)) (take (cap s) (jobs s)))"
  by (simp add: startNewPhase_def Let_def fold_emit_ready_emitted slice_js_take cap_def)

lemma startNewPhase_crashed:
  "crashed (startNewPhase s) = (crashed s \<or> (\<exists>i\<in>set (take (cap s) (jobs s)). length (jobMap s) \<le> i))"
  by (simp add: startNewPhase_def Let_def fold_emit_ready_crashed slice_js_take cap_def)

lemma startQueuedJob_frame:
  "jobs (startQueuedJob s) = jobs s"
  "phasePendingJobs (startQueuedJob s) = phasePendingJobs s"
  "concurrency (startQueuedJob s) = concurrency s"
  "length (jobMap (startQueuedJob s)) = length (jobMap s)"
  by (simp_all add: startQueuedJob_def Let_def emit_ready_frame split: list.splits)

lemma startQueuedJob_queued:
  "queuedJobs (startQueuedJob s) = removeAll (hd (queuedJobs s)) (queuedJobs s)"
  by (simp add: startQueuedJob_def Let_def emit_ready_frame set_delete_def split: list.splits)

lemma startQueuedJob_nth:
  "jobMap (startQueuedJob s) ! x =
     (if queuedJobs s \<noteq> [] \<and> x = hd (queuedJobs s) \<and> x < length (jobMap s)
      then (jobMap s ! x)\<lparr>listening := False\<rparr> else jobMap s ! x)"
  by (auto simp add: startQueuedJob_def Let_def emit_ready_nth split: list.splits)

lemma startQueuedJob_emitted:
  "emitted (startQueuedJob s) =
     emitted s @ (if queuedJobs s \<noteq> [] \<and> hd (queuedJobs s) < length (jobMap s)
                  then [Ready (hd (queuedJobs s))] else [])"
  by (auto simp add: startQueuedJob_def Let_def emit_ready_emitted split: list.splits)

lemma startQueuedJob_crashed:
  "crashed (startQueuedJob s) =
     (crashed s \<or> (queuedJobs s \<noteq> [] \<and> length (jobMap s) \<le> hd (queuedJobs s)))"
  by (auto simp add: startQueuedJob_def Let_def emit_ready_crashed split: list.splits)

lemma advance_frame:
  "jobs (advance s) = jobs s"
  "concurrency (advance s) = concurrency s"
  "length (jobMap (advance s)) = length (jobMap s)"
  by (simp_all add: advance_def startNewPhase_frame startQueuedJob_frame)

lemma advance_nth:
  "jobMap (advance s) ! x =
     (if x \<in> set (woken s) \<and> x < length (jobMap s)
      then (jobMap s ! x)\<lparr>listening := False\<rparr> else jobMap s ! x)"
  by (cases "queuedJobs s") (auto simp add: advance_def woken_def startNewPhase_nth startQueuedJob_nth)

lemma advance_emitted:
  "emitted (advance s) = emitted s @ map Ready (filter (\<lambda>i. i < length (jobMap s)) (woken s))"
  by (cases "queuedJobs s") (auto simp add: advance_def woken_def startNewPhase_emitted startQueuedJob_emitted)

lemma advance_crashed:
  "crashed (advance s) = (crashed s \<or> (\<exists>i\<in>set (woken s). length (jobMap s) \<le> i))"
  by (cases "queuedJobs s") (auto simp add: advance_def woken_def startNewPhase_crashed startQueuedJob_crashed)

lemma advance_queued:
  "queuedJobs (advance s) =
     (if phasePendingJobs s = [] then new_Set (drop (cap s) (jobs s))
      else removeAll (hd (queuedJobs s)) (queuedJobs s))"
  by (simp add: advance_def startNewPhase_sets startQueuedJob_queued)

lemma advance_pending:
  "phasePendingJobs (advance s) =
     (if phasePendingJobs s = [] then new_Set (jobs s) else phasePendingJobs s)"
  by (simp add: advance_def startNewPhase_sets startQueuedJob_frame)

subsection \<open>The cases of a turn\<close>

lemma job_step_idle: "\<not> runnable s i \<Longrightarrow> job_step i s = s"
  by (auto simp add: job_step_def runnable_def Let_def split: option.splits)

lemma job_step_Await:
  "runnable s i \<Longrightarrow> todo (jobMap s ! i) = Await # rest \<Longrightarrow>
   job_step i s = s\<lparr>jobMap := (jobMap s)[i := (jobMap s ! i)\<lparr>todo := rest\<rparr>]\<rparr>"
  by (simp add: job_step_def runnable_def Let_def)

lemma job_step_Phase0:
  "runnable s i \<Longrightarrow> todo (jobMap s ! i) = Phase # rest \<Longrightarrow> phaseCntr (jobMap s ! i) = 0 \<Longrightarrow>
   job_step i s = s\<lparr>jobMap := (jobMap s)[i := (jobMap s ! i)\<lparr>todo := rest, listening := True, phaseCntr := 1\<rparr>]\<rparr>"
  by (simp add: job_step_def runnable_def Let_def phase_def)

lemma job_step_Phase1:
  "runnable s i \<Longrightarrow> todo (jobMap s ! i) = Phase # rest \<Longrightarrow> 0 < phaseCntr (jobMap s ! i) \<Longrightarrow>
   job_step i s =
     (let s2 = advance (announce i (s\<lparr>jobMap := (jobMap s)[i := (jobMap s ! i)\<lparr>todo := rest\<rparr>]\<rparr>))
      in s2\<lparr>jobMap := (jobMap s2)[i := (jobMap s2 ! i)\<lparr>phaseCntr := phaseCntr (jobMap s2 ! i) + 1\<rparr>]\<rparr>)"
  by (simp add: job_step_def runnable_def Let_def phase_def emit_stepDone_def on_stepDone_def
      advance_def announce_def set_delete_def)

lemma job_step_done:
  "runnable s i \<Longrightarrow> todo (jobMap s ! i) = [] \<Longrightarrow> \<not> finallyRan (jobMap s ! i) \<Longrightarrow>
   job_step i s = advance (retire i s)"
  by (simp add: job_step_def runnable_def Let_def emit_jobDone_def on_jobDone_def
      advance_def retire_def set_delete_def)

lemma job_step_settle:
  "runnable s i \<Longrightarrow> todo (jobMap s ! i) = [] \<Longrightarrow> finallyRan (jobMap s ! i) \<Longrightarrow>
   job_step i s = s\<lparr>jobMap := (jobMap s)[i := (jobMap s ! i)\<lparr>jobPromise := Some (outcome (jobMap s ! i))\<rparr>]\<rparr>"
  by (simp add: job_step_def runnable_def Let_def)

lemma job_step_cases [case_names idle await phase0 phase1 callback settle]:
  assumes "\<not> runnable s i \<Longrightarrow> P"
    and "\<And>rest. runnable s i \<Longrightarrow> todo (jobMap s ! i) = Await # rest \<Longrightarrow> P"
    and "\<And>rest. runnable s i \<Longrightarrow> todo (jobMap s ! i) = Phase # rest \<Longrightarrow> phaseCntr (jobMap s ! i) = 0 \<Longrightarrow> P"
    and "\<And>rest. runnable s i \<Longrightarrow> todo (jobMap s ! i) = Phase # rest \<Longrightarrow> 0 < phaseCntr (jobMap s ! i) \<Longrightarrow> P"
    and "runnable s i \<Longrightarrow> todo (jobMap s ! i) = [] \<Longrightarrow> \<not> finallyRan (jobMap s ! i) \<Longrightarrow> P"
    and "runnable s i \<Longrightarrow> todo (jobMap s ! i) = [] \<Longrightarrow> finallyRan (jobMap s ! i) \<Longrightarrow> P"
  shows P
proof (cases "runnable s i")
  case False
  then show ?thesis by (rule assms(1))
next
  case True
  show ?thesis
  proof (cases "todo (jobMap s ! i)")
    case Nil
    with True show ?thesis by (cases "finallyRan (jobMap s ! i)") (auto intro: assms(5,6))
  next
    case (Cons a rest)
    show ?thesis
    proof (cases a)
      case Await
      with True Cons show ?thesis by (auto intro: assms(2))
    next
      case Phase
      with True Cons show ?thesis by (cases "phaseCntr (jobMap s ! i) = 0") (auto intro: assms(3,4))
    qed
  qed
qed

subsection \<open>The phase-boundary operation\<close>

lemma phase_length: "length (jobMap (phase i s)) = length (jobMap s)"
  by (simp add: phase_def Let_def emit_stepDone_def on_stepDone_def startNewPhase_frame startQueuedJob_frame)

lemma phase_zero:
  "i < length (jobMap s) \<Longrightarrow> phaseCntr (jobMap s ! i) = 0 \<Longrightarrow>
   phase i s = s\<lparr>jobMap := (jobMap s)[i := (jobMap s ! i)\<lparr>listening := True, phaseCntr := 1\<rparr>]\<rparr>"
  by (simp add: phase_def Let_def)

lemma advance_phaseCntr: "phaseCntr (jobMap (advance s) ! x) = phaseCntr (jobMap s ! x)"
  by (simp add: advance_nth)

lemma phase_pos_raw:
  "i < length (jobMap s) \<Longrightarrow> 0 < phaseCntr (jobMap s ! i) \<Longrightarrow>
   phase i s =
     (let s2 = advance (announce i s)
      in s2\<lparr>jobMap := (jobMap s2)[i := (jobMap s2 ! i)\<lparr>phaseCntr := phaseCntr (jobMap s2 ! i) + 1\<rparr>]\<rparr>)"
  by (simp add: phase_def Let_def emit_stepDone_def on_stepDone_def advance_def set_delete_def
      announce_def)

lemma phase_pos:
  "i < length (jobMap s) \<Longrightarrow> 0 < phaseCntr (jobMap s ! i) \<Longrightarrow>
   phase i s =
     (let s2 = advance (announce i s)
      in s2\<lparr>jobMap := (jobMap s2)[i := (jobMap s2 ! i)\<lparr>phaseCntr := phaseCntr (jobMap s ! i) + 1\<rparr>]\<rparr>)"
  by (simp add: phase_pos_raw Let_def advance_phaseCntr) (simp add: announce_def)

subsection \<open>Construction\<close>

lemma PhaseSyncer_new_eq:
  "PhaseSyncer_new (f, a) (s, st) =
     (s\<lparr>jobMap := jobMap s @ [boot (f (Handle (length (jobMap s)) # st a))]\<rparr>,
      st(a := Handle (length (jobMap s)) # st a))"
proof (cases "\<exists>rest. fst (f (Handle (length (jobMap s)) # st a)) = Phase # rest")
  case True
  then obtain rest where r: "fst (f (Handle (length (jobMap s)) # st a)) = Phase # rest" by blast
  show ?thesis
    by (simp add: PhaseSyncer_new_def Let_def r boot_def phase_zero)
next
  case False
  then show ?thesis
    by (auto simp add: PhaseSyncer_new_def Let_def boot_def split: list.splits action.splits)
qed

lemma filter_nth_append:
  "n \<le> length jl \<Longrightarrow>
   filter (\<lambda>k. snd ((jl @ ys) ! k) = r) [0..<n] = filter (\<lambda>k. snd (jl ! k) = r) [0..<n]"
  by (rule filter_cong) (simp_all add: nth_append)

lemma args_seen_append:
  "i < length jl \<Longrightarrow> args_seen (jl @ [d]) st i = args_seen jl st i"
  by (simp add: args_seen_def filter_nth_append) (simp add: nth_append)

lemma handles_snoc:
  "handles (jl @ [(f, a)]) st = handles jl st @ [boot (f (Handle (length jl) # arrays_after jl st a))]"
proof -
  have "map (\<lambda>i. boot (fst ((jl @ [(f, a)]) ! i) (args_seen (jl @ [(f, a)]) st i))) [0..<length jl]
        = map (\<lambda>i. boot (fst (jl ! i) (args_seen jl st i))) [0..<length jl]"
    by (rule map_cong) (simp_all add: args_seen_append nth_append)
  moreover have "args_seen (jl @ [(f, a)]) st (length jl) = Handle (length jl) # arrays_after jl st a"
    by (simp add: args_seen_def arrays_after_def filter_nth_append)
  ultimately show ?thesis by (simp add: handles_def)
qed

lemma arrays_after_snoc:
  "arrays_after (jl @ [(f, a)]) st = (arrays_after jl st)(a := Handle (length jl) # arrays_after jl st a)"
proof
  fix r
  have "filter (\<lambda>k. snd ((jl @ [(f, a)]) ! k) = r) [0..<length jl] = filter (\<lambda>k. snd (jl ! k) = r) [0..<length jl]"
    by (rule filter_cong) (simp_all add: nth_append)
  then show "arrays_after (jl @ [(f, a)]) st r = ((arrays_after jl st)(a := Handle (length jl) # arrays_after jl st a)) r"
    by (simp add: arrays_after_def)
qed

lemma length_handles: "length (handles jl st) = length jl"
  by (simp add: handles_def)

lemma construction:
  "fold PhaseSyncer_new jl
     (\<lparr>jobMap = [], jobs = [], queuedJobs = [], phasePendingJobs = [],
       concurrency = c, emitted = [], crashed = False\<rparr>, st)
   = (\<lparr>jobMap = handles jl st, jobs = [], queuedJobs = [], phasePendingJobs = [],
       concurrency = c, emitted = [], crashed = False\<rparr>, arrays_after jl st)"
proof (induction jl rule: rev_induct)
  case Nil
  show ?case by (simp add: handles_def arrays_after_def)
next
  case (snoc d jl)
  obtain f a where d: "d = (f, a)" by (cases d)
  show ?case
    by (simp add: snoc.IH d PhaseSyncer_new_eq handles_snoc arrays_after_snoc length_handles fun_eq_iff)
qed

lemma phaseSyncedSettle_eq:
  "phaseSyncedSettle jl c st = (startNewPhase (before_start jl c st), arrays_after jl st)"
  by (simp add: phaseSyncedSettle_def construction Let_def before_start_def length_handles
      new_Set_distinct)

lemma run_Nil: "run [] s = s"
  by (simp add: run_def)

lemma run_snoc: "run (sched @ [k]) s = job_step k (run sched s)"
  by (simp add: run_def)

lemma run_append: "run (xs @ ys) s = run ys (run xs s)"
  by (simp add: run_def)

subsection \<open>The state after the initial start\<close>

lemma cap_before_start: "cap (before_start jl c st) = rel_index c (length jl)"
  by (simp add: cap_def before_start_def)

lemma init_frame:
  "length (jobMap (startNewPhase (before_start jl c st))) = length jl"
  "jobs (startNewPhase (before_start jl c st)) = [0..<length jl]"
  "phasePendingJobs (startNewPhase (before_start jl c st)) = [0..<length jl]"
  "queuedJobs (startNewPhase (before_start jl c st)) = [rel_index c (length jl)..<length jl]"
  "concurrency (startNewPhase (before_start jl c st)) = c"
  by (simp_all add: startNewPhase_frame startNewPhase_sets cap_def new_Set_distinct
      before_start_def length_handles)

lemma init_emitted:
  "emitted (startNewPhase (before_start jl c st)) = map Ready [0..<rel_index c (length jl)]"
proof -
  have "filter (\<lambda>i. i < length jl) [0..<min (rel_index c (length jl)) (length jl)]
        = [0..<min (rel_index c (length jl)) (length jl)]"
    by (simp add: filter_id_conv)
  then show ?thesis
    using rel_index_le [of c "length jl"]
    by (simp add: startNewPhase_emitted cap_before_start) (simp add: before_start_def length_handles take_upt min_def)
qed

lemma init_crashed: "\<not> crashed (startNewPhase (before_start jl c st))"
  by (simp add: startNewPhase_crashed) (auto simp add: before_start_def length_handles dest: in_set_takeD)

lemma init_nth:
  "i < length jl \<Longrightarrow>
   jobMap (startNewPhase (before_start jl c st)) ! i =
     (if i < rel_index c (length jl) then (boot (fst (jl ! i) (args_seen jl st i)))\<lparr>listening := False\<rparr>
      else boot (fst (jl ! i) (args_seen jl st i)))"
  using rel_index_le [of c "length jl"]
  by (simp add: startNewPhase_nth cap_before_start)
     (simp add: before_start_def length_handles handles_def take_upt)

lemma boot_fields:
  "jobPromise (boot b) = None"
  "outcome (boot b) = snd b"
  "finallyRan (boot b) = False"
  by (simp_all add: boot_def split: list.splits action.splits)

subsection \<open>One turn of a job\<close>

lemma announce_frame:
  "jobs (announce i s) = jobs s"
  "queuedJobs (announce i s) = queuedJobs s"
  "phasePendingJobs (announce i s) = removeAll i (phasePendingJobs s)"
  "concurrency (announce i s) = concurrency s"
  "crashed (announce i s) = crashed s"
  "emitted (announce i s) = emitted s @ [StepDone i (phaseCntr (jobMap s ! i))]"
  "length (jobMap (announce i s)) = length (jobMap s)"
  by (simp_all add: announce_def)

lemma announce_nth:
  "i < length (jobMap s) \<Longrightarrow>
   jobMap (announce i s) ! x = (if x = i then (jobMap s ! i)\<lparr>listening := True\<rparr> else jobMap s ! x)"
  by (simp add: announce_def nth_list_update)

lemma retire_frame:
  "jobs (retire i s) = removeAll i (jobs s)"
  "queuedJobs (retire i s) = removeAll i (queuedJobs s)"
  "phasePendingJobs (retire i s) = removeAll i (phasePendingJobs s)"
  "concurrency (retire i s) = concurrency s"
  "crashed (retire i s) = crashed s"
  "emitted (retire i s) = emitted s @ [JobDone i]"
  "length (jobMap (retire i s)) = length (jobMap s)"
  by (simp_all add: retire_def)

lemma retire_nth:
  "i < length (jobMap s) \<Longrightarrow>
   jobMap (retire i s) ! x =
     (if x = i then (jobMap s ! i)\<lparr>finallyRan := True\<rparr> else jobMap s ! x)"
  by (simp add: retire_def nth_list_update)

lemmas turn_simps =
  job_step_idle job_step_Await job_step_Phase0 job_step_Phase1 job_step_done job_step_settle Let_def
  advance_frame advance_nth announce_frame announce_nth retire_frame retire_nth nth_list_update

lemma job_step_length: "length (jobMap (job_step k s)) = length (jobMap s)"
proof (cases rule: job_step_cases [of s k])
  case idle
  then show ?thesis by (simp add: turn_simps)
next
  case (await rest)
  then show ?thesis by (simp add: turn_simps runnable_def)
next
  case (phase0 rest)
  then show ?thesis by (simp add: turn_simps runnable_def)
next
  case (phase1 rest)
  then show ?thesis by (simp add: turn_simps runnable_def)
next
  case callback
  then show ?thesis by (simp add: turn_simps runnable_def)
next
  case settle
  then show ?thesis by (simp add: turn_simps runnable_def)
qed

lemma run_length: "length (jobMap (run sched s)) = length (jobMap s)"
  by (induction sched rule: rev_induct) (simp_all add: run_Nil run_snoc job_step_length)

lemma job_step_outcome:
  assumes x: "x < length (jobMap s)"
  shows "outcome (jobMap (job_step k s) ! x) = outcome (jobMap s ! x)"
proof (cases rule: job_step_cases [of s k])
  case idle
  with x show ?thesis by (simp add: turn_simps)
next
  case (await rest)
  with x show ?thesis by (simp add: turn_simps runnable_def)
next
  case (phase0 rest)
  with x show ?thesis by (simp add: turn_simps runnable_def)
next
  case (phase1 rest)
  with x show ?thesis by (simp add: turn_simps runnable_def)
next
  case callback
  with x show ?thesis by (simp add: turn_simps runnable_def)
next
  case settle
  with x show ?thesis by (simp add: turn_simps runnable_def)
qed

lemma job_step_jobPromise:
  assumes x: "x < length (jobMap s)"
  shows "jobPromise (jobMap (job_step k s) ! x) =
     (if x = k \<and> runnable s k \<and> todo (jobMap s ! k) = [] \<and> finallyRan (jobMap s ! k)
      then Some (outcome (jobMap s ! k)) else jobPromise (jobMap s ! x))"
proof (cases rule: job_step_cases [of s k])
  case idle
  with x show ?thesis by (simp add: turn_simps)
next
  case (await rest)
  with x show ?thesis by (simp add: turn_simps runnable_def)
next
  case (phase0 rest)
  with x show ?thesis by (simp add: turn_simps runnable_def)
next
  case (phase1 rest)
  with x show ?thesis by (simp add: turn_simps runnable_def)
next
  case callback
  with x show ?thesis by (simp add: turn_simps runnable_def)
next
  case settle
  with x show ?thesis by (simp add: turn_simps runnable_def)
qed

lemma job_step_finallyRan:
  assumes x: "x < length (jobMap s)"
  shows "finallyRan (jobMap (job_step k s) ! x) =
     (finallyRan (jobMap s ! x) \<or> (x = k \<and> runnable s k \<and> todo (jobMap s ! k) = []))"
proof (cases rule: job_step_cases [of s k])
  case idle
  with x show ?thesis by (auto simp add: turn_simps)
next
  case (await rest)
  with x show ?thesis by (auto simp add: turn_simps runnable_def)
next
  case (phase0 rest)
  with x show ?thesis by (auto simp add: turn_simps runnable_def)
next
  case (phase1 rest)
  with x show ?thesis by (auto simp add: turn_simps runnable_def)
next
  case callback
  with x show ?thesis by (auto simp add: turn_simps runnable_def)
next
  case settle
  with x show ?thesis by (auto simp add: turn_simps runnable_def)
qed

lemma job_step_emitted:
  "\<exists>rs. emitted (job_step k s) = emitted s @ notice k s @ map Ready rs"
proof (cases rule: job_step_cases [of s k])
  case idle
  then have "emitted (job_step k s) = emitted s @ notice k s @ map Ready []"
    by (simp add: job_step_idle notice_def)
  then show ?thesis by blast
next
  case (await rest)
  then have "emitted (job_step k s) = emitted s @ notice k s @ map Ready []"
    by (simp add: job_step_Await notice_def)
  then show ?thesis by blast
next
  case (phase0 rest)
  then have "emitted (job_step k s) = emitted s @ notice k s @ map Ready []"
    by (simp add: job_step_Phase0 notice_def)
  then show ?thesis by blast
next
  case (phase1 rest)
  then have "emitted (job_step k s) = emitted s @ notice k s @ map Ready
      (filter (\<lambda>i. i < length (jobMap s)) (woken (announce k (s\<lparr>jobMap := (jobMap s)[k := (jobMap s ! k)\<lparr>todo := rest\<rparr>]\<rparr>))))"
    by (simp add: turn_simps advance_emitted notice_def runnable_def)
  then show ?thesis by blast
next
  case callback
  then have "emitted (job_step k s) = emitted s @ notice k s @ map Ready
      (filter (\<lambda>i. i < length (jobMap s)) (woken (retire k s)))"
    by (simp add: turn_simps advance_emitted notice_def)
  then show ?thesis by blast
next
  case settle
  then have "emitted (job_step k s) = emitted s @ notice k s @ map Ready []"
    by (simp add: job_step_settle notice_def)
  then show ?thesis by blast
qed

lemma count_Ready_other:
  "count_list (map Ready rs) (JobDone i) = 0" "count_list (map Ready rs) (StepDone i m) = 0"
  by (induction rs) simp_all

lemma job_step_count_JobDone:
  "count_list (emitted (job_step k s)) (JobDone i) =
   count_list (emitted s) (JobDone i) +
     (if i = k \<and> runnable s k \<and> todo (jobMap s ! k) = [] \<and> \<not> finallyRan (jobMap s ! k) then 1 else 0)"
proof -
  obtain rs where "emitted (job_step k s) = emitted s @ notice k s @ map Ready rs"
    using job_step_emitted by blast
  then show ?thesis
    by (auto simp add: count_Ready_other notice_def split: list.splits action.splits)
qed

lemma job_step_todo_listening:
  assumes x: "x < length (jobMap s)" and t: "todo (jobMap s ! x) = []" and l: "\<not> listening (jobMap s ! x)"
  shows "todo (jobMap (job_step k s) ! x) = [] \<and> \<not> listening (jobMap (job_step k s) ! x)"
proof (cases rule: job_step_cases [of s k])
  case idle
  with x t l show ?thesis by (simp add: turn_simps)
next
  case (await rest)
  with x t l show ?thesis by (auto simp add: turn_simps runnable_def)
next
  case (phase0 rest)
  with x t l show ?thesis by (auto simp add: turn_simps runnable_def)
next
  case (phase1 rest)
  with x t l show ?thesis by (auto simp add: turn_simps runnable_def)
next
  case callback
  with x t l show ?thesis by (auto simp add: turn_simps runnable_def)
next
  case settle
  with x t l show ?thesis by (auto simp add: turn_simps runnable_def)
qed

lemma callback_once_step:
  assumes c: "callback_once s"
  shows "callback_once (job_step k s)"
  unfolding callback_once_def
proof (intro allI impI conjI)
  fix i assume "i < length (jobMap (job_step k s))"
  then have i: "i < length (jobMap s)" by (simp add: job_step_length)
  show "count_list (emitted (job_step k s)) (JobDone i) = (if finallyRan (jobMap (job_step k s) ! i) then 1 else 0)"
    using c i by (auto simp add: callback_once_def job_step_count_JobDone job_step_finallyRan)
  show "todo (jobMap (job_step k s) ! i) = []" "\<not> listening (jobMap (job_step k s) ! i)"
    if f: "finallyRan (jobMap (job_step k s) ! i)"
  proof -
    have "todo (jobMap s ! i) = [] \<and> \<not> listening (jobMap s ! i)"
      using c i f by (auto simp add: callback_once_def job_step_finallyRan runnable_def)
    then have "todo (jobMap (job_step k s) ! i) = [] \<and> \<not> listening (jobMap (job_step k s) ! i)"
      using i by (intro job_step_todo_listening) simp_all
    then show "todo (jobMap (job_step k s) ! i) = []" "\<not> listening (jobMap (job_step k s) ! i)"
      by simp_all
  qed
  show "finallyRan (jobMap (job_step k s) ! i)" if "jobPromise (jobMap (job_step k s) ! i) \<noteq> None"
    using c i that by (auto simp add: callback_once_def job_step_jobPromise job_step_finallyRan split: if_splits)
qed

lemma callback_once_init: "callback_once (startNewPhase (before_start jl c st))"
  by (auto simp add: callback_once_def init_frame init_emitted init_nth boot_fields count_Ready_other)

lemma callback_once_run: "callback_once s \<Longrightarrow> callback_once (run sched s)"
  by (induction sched rule: rev_induct) (simp_all add: run_Nil run_snoc callback_once_step)

subsection \<open>Settled promises\<close>

lemma those_Some: "those xs = Some rs \<Longrightarrow> xs = map Some rs"
  by (induction xs arbitrary: rs) (auto split: option.splits)

lemma promise_kept_step: "promise_kept s \<Longrightarrow> promise_kept (job_step k s)"
  by (auto simp add: promise_kept_def job_step_length job_step_jobPromise job_step_outcome)

lemma promise_kept_run: "promise_kept s \<Longrightarrow> promise_kept (run sched s)"
  by (induction sched rule: rev_induct) (simp_all add: run_Nil run_snoc promise_kept_step)

lemma promise_kept_init: "promise_kept (startNewPhase (before_start jl c st))"
  by (simp add: promise_kept_def init_frame init_nth boot_fields)

lemma run_outcome: "x < length (jobMap s) \<Longrightarrow> outcome (jobMap (run sched s) ! x) = outcome (jobMap s ! x)"
  by (induction sched rule: rev_induct) (simp_all add: run_Nil run_snoc job_step_outcome run_length)

lemma sorted_le_last: "sorted xs \<Longrightarrow> x \<in> set xs \<Longrightarrow> x \<le> last (xs :: nat list)"
  by (induction xs) auto

lemma woken_cong:
  "phasePendingJobs s = phasePendingJobs t \<Longrightarrow> jobs s = jobs t \<Longrightarrow> queuedJobs s = queuedJobs t \<Longrightarrow>
   concurrency s = concurrency t \<Longrightarrow> woken s = woken t"
  by (simp add: woken_def cap_def)

lemma woken_announce_todo:
  "woken (announce k (s\<lparr>jobMap := jm\<rparr>)) = woken (announce k s)"
  by (rule woken_cong) (simp_all add: announce_frame)

lemma job_step_trace:
  "emitted (job_step k s) = emitted s @ notice k s @ map Ready (answer k s)"
proof (cases rule: job_step_cases [of s k])
  case idle
  then show ?thesis by (simp add: turn_simps notice_def answer_def)
next
  case (await rest)
  then show ?thesis by (simp add: turn_simps notice_def answer_def)
next
  case (phase0 rest)
  then show ?thesis by (simp add: turn_simps notice_def answer_def)
next
  case (phase1 rest)
  then show ?thesis
    by (simp add: turn_simps advance_emitted notice_def answer_def woken_announce_todo runnable_def)
next
  case callback
  then show ?thesis by (simp add: turn_simps advance_emitted notice_def answer_def)
next
  case settle
  then show ?thesis by (simp add: turn_simps advance_emitted notice_def answer_def)
qed

lemma job_step_other:
  assumes x: "x < length (jobMap s)" and n: "x \<noteq> k"
  shows "jobMap (job_step k s) ! x =
           (if x \<in> set (answer k s) then (jobMap s ! x)\<lparr>listening := False\<rparr> else jobMap s ! x)"
proof (cases rule: job_step_cases [of s k])
  case idle
  with x n show ?thesis by (simp add: turn_simps answer_def)
next
  case (await rest)
  with x n show ?thesis by (simp add: turn_simps answer_def runnable_def)
next
  case (phase0 rest)
  with x n show ?thesis by (simp add: turn_simps answer_def runnable_def)
next
  case (phase1 rest)
  with x n show ?thesis
    by (simp add: turn_simps answer_def woken_announce_todo runnable_def)
next
  case callback
  with x n show ?thesis by (simp add: turn_simps answer_def runnable_def)
next
  case settle
  with x n show ?thesis by (simp add: turn_simps answer_def runnable_def)
qed

lemma not_in_answer_self_settle:
  "k \<notin> set (woken (retire k s))"
  by (auto simp add: woken_def retire_frame dest!: in_set_takeD)

lemma job_step_self:
  assumes k: "k < length (jobMap s)"
  shows "jobMap (job_step k s) ! k =
     (if runnable s k then
        (case todo (jobMap s ! k) of
           [] \<Rightarrow> (if finallyRan (jobMap s ! k)
                  then (jobMap s ! k)\<lparr>jobPromise := Some (outcome (jobMap s ! k))\<rparr>
                  else (jobMap s ! k)\<lparr>finallyRan := True\<rparr>)
         | Await # rest \<Rightarrow> (jobMap s ! k)\<lparr>todo := rest\<rparr>
         | Phase # rest \<Rightarrow> (jobMap s ! k)\<lparr>todo := rest, listening := k \<notin> set (answer k s),
                                            phaseCntr := phaseCntr (jobMap s ! k) + 1\<rparr>)
      else jobMap s ! k)"
proof (cases rule: job_step_cases [of s k])
  case idle
  with k show ?thesis by (simp add: turn_simps)
next
  case (await rest)
  with k show ?thesis by (simp add: turn_simps runnable_def)
next
  case (phase0 rest)
  with k show ?thesis by (simp add: turn_simps answer_def runnable_def)
next
  case (phase1 rest)
  with k show ?thesis
    by (simp add: turn_simps answer_def woken_announce_todo runnable_def)
next
  case callback
  with k show ?thesis by (simp add: turn_simps runnable_def not_in_answer_self_settle)
next
  case settle
  with k show ?thesis by (simp add: turn_simps runnable_def not_in_answer_self_settle)
qed

lemma job_step_suspended:
  assumes x: "x < length (jobMap s)" and l: "listening (jobMap s ! x)"
    and r: "Ready x \<notin> set (emitted (job_step k s))"
  shows "jobMap (job_step k s) ! x = jobMap s ! x"
proof (cases "x = k")
  case True
  with l have "\<not> runnable s k" by (simp add: runnable_def)
  then show ?thesis by (simp add: job_step_idle)
next
  case False
  from r have "x \<notin> set (answer k s)" by (auto simp add: job_step_trace)
  with x False show ?thesis by (simp add: job_step_other)
qed

lemma job_step_trace_mono: "set (emitted s) \<subseteq> set (emitted (job_step k s))"
  by (auto simp add: job_step_trace)

lemma run_suspended:
  assumes x: "x < length (jobMap s)" and l: "listening (jobMap s ! x)"
  shows "Ready x \<notin> set (emitted (run sched s)) \<Longrightarrow> jobMap (run sched s) ! x = jobMap s ! x"
proof (induction sched rule: rev_induct)
  case Nil
  show ?case by (simp add: run_Nil)
next
  case (snoc k sched)
  from snoc.prems have r: "Ready x \<notin> set (emitted (job_step k (run sched s)))"
    by (simp add: run_snoc)
  then have "Ready x \<notin> set (emitted (run sched s))"
    using job_step_trace_mono [of "run sched s" k] by auto
  then have same: "jobMap (run sched s) ! x = jobMap s ! x" by (rule snoc.IH)
  have "jobMap (job_step k (run sched s)) ! x = jobMap (run sched s) ! x"
    using x l r same by (intro job_step_suspended) (simp_all add: run_length)
  with same show ?case by (simp add: run_snoc)
qed

lemma run_trace_mono: "set (emitted s) \<subseteq> set (emitted (run sched s))"
proof (induction sched rule: rev_induct)
  case Nil
  show ?case by (simp add: run_Nil)
next
  case (snoc k sched)
  then show ?case using job_step_trace_mono [of "run sched s" k] by (auto simp add: run_snoc)
qed

lemma boot_runnable: "listening (boot b) = (\<exists>rest. fst b = Phase # rest)"
  by (simp add: boot_def split: list.splits action.splits)

lemma step_mid_frame:
  "jobs (step_mid i s) = jobs s"
  "queuedJobs (step_mid i s) = queuedJobs s"
  "phasePendingJobs (step_mid i s) = removeAll i (phasePendingJobs s)"
  "concurrency (step_mid i s) = concurrency s"
  "crashed (step_mid i s) = crashed s"
  "emitted (step_mid i s) = emitted s @ [StepDone i (phaseCntr (jobMap s ! i))]"
  "length (jobMap (step_mid i s)) = length (jobMap s)"
  by (simp_all add: step_mid_def)

lemma step_mid_nth:
  "i < length (jobMap s) \<Longrightarrow>
   jobMap (step_mid i s) ! x =
     (if x = i then (jobMap s ! i)\<lparr>todo := tl (todo (jobMap s ! i)), listening := True,
                                   phaseCntr := phaseCntr (jobMap s ! i) + 1\<rparr>
      else jobMap s ! x)"
  by (simp add: step_mid_def nth_list_update)

lemma woken_step_mid: "woken (step_mid k s) = woken (announce k s)"
  by (rule woken_cong) (simp_all add: step_mid_frame announce_frame)

lemma job_step_Phase1_mid:
  assumes r: "runnable s k" and t: "todo (jobMap s ! k) = Phase # rest" and c: "0 < phaseCntr (jobMap s ! k)"
  shows "job_step k s = advance (step_mid k s)"
proof (rule sys.equality)
  have k: "k < length (jobMap s)" using r by (simp add: runnable_def)
  show "jobMap (job_step k s) = jobMap (advance (step_mid k s))"
  proof (rule nth_equalityI)
    show "length (jobMap (job_step k s)) = length (jobMap (advance (step_mid k s)))"
      by (simp add: job_step_length advance_frame step_mid_frame)
  next
    fix x assume "x < length (jobMap (job_step k s))"
    then have x: "x < length (jobMap s)" by (simp add: job_step_length)
    show "jobMap (job_step k s) ! x = jobMap (advance (step_mid k s)) ! x"
    proof (cases "x = k")
      case True
      with r t c k show ?thesis
        by (simp add: job_step_self advance_nth step_mid_nth step_mid_frame answer_def woken_step_mid)
    next
      case False
      with r t c k x show ?thesis
        by (simp add: job_step_other advance_nth step_mid_nth step_mid_frame answer_def woken_step_mid)
    qed
  qed
next
  show "emitted (job_step k s) = emitted (advance (step_mid k s))"
    using r t c
    by (simp add: job_step_trace notice_def answer_def advance_emitted step_mid_frame woken_step_mid)
qed (simp_all add: job_step_Phase1 [OF r t c] Let_def advance_frame advance_queued advance_pending
      advance_crashed announce_frame step_mid_frame woken_step_mid cap_def woken_announce_todo)

subsection \<open>The lockstep invariant\<close>

lemma set_take1: "set (take (Suc 0) xs) = (if xs = [] then {} else {hd xs})"
  by (cases xs) simp_all

lemma take_drop_disjoint: "distinct xs \<Longrightarrow> x \<in> set (take n xs) \<Longrightarrow> x \<notin> set (drop n xs)"
  using distinct_append [of "take n xs" "drop n xs"] by auto

lemma lockstep_valid: "lockstep g s \<Longrightarrow> i \<in> set (jobs s) \<Longrightarrow> i < length (jobMap s)"
  by (auto simp add: lockstep_def)

lemma lockstep_advance_new:
  assumes l: "lockstep g s" and e: "phasePendingJobs s = []"
  shows "lockstep (Suc g) (advance s)"
proof -
  let ?rel = "take (cap s) (jobs s)"
  have w: "woken s = ?rel" using e by (simp add: woken_def)
  have v: "\<And>i. i \<in> set (jobs s) \<Longrightarrow> i < length (jobMap s)" using l by (rule lockstep_valid)
  have relv: "\<And>i. i \<in> set ?rel \<Longrightarrow> i < length (jobMap s)" by (auto dest: in_set_takeD v)
  have d: "distinct (jobs s)" using l by (simp add: lockstep_def)
  have q: "set (queuedJobs (advance s)) = set (drop (cap s) (jobs s))"
    using e by (simp add: advance_queued set_new_Set)
  have p: "set (phasePendingJobs (advance s)) = set (jobs s)"
    using e by (simp add: advance_pending set_new_Set)
  have all: "\<And>i. i \<in> set (jobs s) \<Longrightarrow> listening (jobMap s ! i) \<and> phaseCntr (jobMap s ! i) = g + 2"
    using l e by (simp add: lockstep_def)
  have "\<forall>i \<in> set ?rel. \<not> length (jobMap s) \<le> i" using relv by (simp add: not_le)
  then have c1: "\<not> crashed (advance s)"
    using l by (simp add: advance_crashed w lockstep_def)
  have c2: "\<forall>i. i \<in> set (jobs (advance s)) \<longleftrightarrow> i < length (jobMap (advance s)) \<and> \<not> finallyRan (jobMap (advance s) ! i)"
    using l by (auto simp add: advance_frame advance_nth lockstep_def)
  have c7: "\<forall>i < length (jobMap (advance s)). finallyRan (jobMap (advance s) ! i) \<longrightarrow> todo (jobMap (advance s) ! i) = []"
    using l by (auto simp add: advance_frame advance_nth lockstep_def)
  have c3: "set (queuedJobs (advance s)) \<subseteq> set (phasePendingJobs (advance s))"
    by (auto simp add: q p dest: in_set_dropD)
  have c5: "\<forall>i \<in> set (phasePendingJobs (advance s)). phaseCntr (jobMap (advance s) ! i) = Suc g + 1"
    using all by (simp add: p advance_nth)
  have c6: "\<forall>i \<in> set (queuedJobs (advance s)). listening (jobMap (advance s) ! i)"
  proof
    fix i assume "i \<in> set (queuedJobs (advance s))"
    then have i: "i \<in> set (drop (cap s) (jobs s))" by (simp add: q)
    then have "i \<notin> set ?rel" using take_drop_disjoint [OF d, of i "cap s"] by auto
    moreover have "i \<in> set (jobs s)" using i by (rule in_set_dropD)
    ultimately show "listening (jobMap (advance s) ! i)" using all by (simp add: advance_nth w)
  qed
  show ?thesis
    unfolding lockstep_def
    using c1 c2 c3 c5 c6 c7 d by (simp add: advance_frame p)
qed

lemma lockstep_advance_queue:
  assumes l: "lockstep g s" and e: "phasePendingJobs s \<noteq> []"
  shows "lockstep g (advance s)"
proof -
  have w: "set (woken s) = (if queuedJobs s = [] then {} else {hd (queuedJobs s)})"
    using e by (simp add: woken_def set_take1)
  have v: "\<And>i. i \<in> set (jobs s) \<Longrightarrow> i < length (jobMap s)" using l by (rule lockstep_valid)
  have qp: "set (queuedJobs s) \<subseteq> set (phasePendingJobs s)" and pj: "set (phasePendingJobs s) \<subseteq> set (jobs s)"
    using l by (simp_all add: lockstep_def)
  have hdq: "queuedJobs s \<noteq> [] \<Longrightarrow> hd (queuedJobs s) \<in> set (phasePendingJobs s)"
    using qp by auto
  have wv: "\<And>i. i \<in> set (woken s) \<Longrightarrow> i < length (jobMap s) \<and> i \<in> set (phasePendingJobs s)"
    using hdq pj v by (auto simp add: w split: if_splits)
  have q: "queuedJobs (advance s) = removeAll (hd (queuedJobs s)) (queuedJobs s)"
    using e by (simp add: advance_queued)
  have p: "phasePendingJobs (advance s) = phasePendingJobs s"
    using e by (simp add: advance_pending)
  have "\<forall>i \<in> set (woken s). \<not> length (jobMap s) \<le> i" using wv by (simp add: not_le)
  then have c1: "\<not> crashed (advance s)"
    using l by (simp add: advance_crashed lockstep_def)
  have c2: "\<forall>i. i \<in> set (jobs (advance s)) \<longleftrightarrow> i < length (jobMap (advance s)) \<and> \<not> finallyRan (jobMap (advance s) ! i)"
    using l by (auto simp add: advance_frame advance_nth lockstep_def)
  have c7: "\<forall>i < length (jobMap (advance s)). finallyRan (jobMap (advance s) ! i) \<longrightarrow> todo (jobMap (advance s) ! i) = []"
    using l by (auto simp add: advance_frame advance_nth lockstep_def)
  have c3: "set (queuedJobs (advance s)) \<subseteq> set (phasePendingJobs (advance s))"
    using qp by (auto simp add: q p)
  have c4: "\<forall>i \<in> set (jobs s) - set (phasePendingJobs s).
          listening (jobMap (advance s) ! i) \<and> phaseCntr (jobMap (advance s) ! i) = g + 2"
    using l wv by (auto simp add: advance_nth lockstep_def)
  have c5: "\<forall>i \<in> set (phasePendingJobs s).
          phaseCntr (jobMap (advance s) ! i) = g + 1 \<or> (g = 0 \<and> phaseCntr (jobMap (advance s) ! i) = 0)"
    using l by (simp add: advance_nth lockstep_def)
  have c6: "\<forall>i \<in> set (queuedJobs (advance s)).
          listening (jobMap (advance s) ! i) \<or> phaseCntr (jobMap (advance s) ! i) = 0"
    using l by (auto simp add: q advance_nth w lockstep_def)
  show ?thesis
    unfolding lockstep_def
    using c1 c2 c3 c4 c5 c6 c7 l pj by (simp add: advance_frame p) (simp add: lockstep_def)
qed

lemma lockstep_advance: "lockstep g s \<Longrightarrow> \<exists>g'. lockstep g' (advance s)"
  using lockstep_advance_new lockstep_advance_queue by blast

lemma lockstep_runnable:
  assumes l: "lockstep g s" and r: "runnable s k" and f: "\<not> finallyRan (jobMap s ! k)"
  shows "k \<in> set (phasePendingJobs s)" "k \<in> set (jobs s)"
    "phaseCntr (jobMap s ! k) = g + 1 \<or> (g = 0 \<and> phaseCntr (jobMap s ! k) = 0)"
    "0 < phaseCntr (jobMap s ! k) \<Longrightarrow> k \<notin> set (queuedJobs s)"
proof -
  show j: "k \<in> set (jobs s)" using l r f by (simp add: lockstep_def runnable_def)
  show p: "k \<in> set (phasePendingJobs s)"
    using l r j by (auto simp add: lockstep_def runnable_def)
  show "phaseCntr (jobMap s ! k) = g + 1 \<or> (g = 0 \<and> phaseCntr (jobMap s ! k) = 0)"
    using l p by (simp add: lockstep_def)
  show "0 < phaseCntr (jobMap s ! k) \<Longrightarrow> k \<notin> set (queuedJobs s)"
    using l r by (auto simp add: lockstep_def runnable_def)
qed

lemma lockstep_unfinished:
  "lockstep g s \<Longrightarrow> k < length (jobMap s) \<Longrightarrow> todo (jobMap s ! k) \<noteq> [] \<Longrightarrow> \<not> finallyRan (jobMap s ! k)"
  by (auto simp add: lockstep_def)

lemma lockstep_Await:
  assumes l: "lockstep g s" and r: "runnable s k" and t: "todo (jobMap s ! k) \<noteq> []"
  shows "lockstep g (s\<lparr>jobMap := (jobMap s)[k := (jobMap s ! k)\<lparr>todo := rest\<rparr>]\<rparr>)"
proof -
  have k: "k < length (jobMap s)" using r by (simp add: runnable_def)
  have f: "\<not> finallyRan (jobMap s ! k)" using l k t by (rule lockstep_unfinished)
  show ?thesis
    using l k f unfolding lockstep_def by (auto simp add: nth_list_update)
qed

lemma lockstep_Phase0:
  assumes l: "lockstep g s" and r: "runnable s k" and z: "phaseCntr (jobMap s ! k) = 0"
    and t: "todo (jobMap s ! k) \<noteq> []"
  shows "lockstep g (s\<lparr>jobMap := (jobMap s)[k := (jobMap s ! k)\<lparr>todo := rest, listening := True, phaseCntr := 1\<rparr>]\<rparr>)"
proof -
  have k: "k < length (jobMap s)" using r by (simp add: runnable_def)
  have f: "\<not> finallyRan (jobMap s ! k)" using l k t by (rule lockstep_unfinished)
  have g: "g = 0" using lockstep_runnable(3) [OF l r f] z by simp
  have p: "k \<in> set (phasePendingJobs s)" using lockstep_runnable(1) [OF l r f] .
  show ?thesis
    using l p g k f unfolding lockstep_def by (auto simp add: nth_list_update)
qed

lemma lockstep_step_mid:
  assumes l: "lockstep g s" and r: "runnable s k" and c: "0 < phaseCntr (jobMap s ! k)"
    and t: "todo (jobMap s ! k) \<noteq> []"
  shows "lockstep g (step_mid k s)"
proof -
  have k: "k < length (jobMap s)" using r by (simp add: runnable_def)
  have f: "\<not> finallyRan (jobMap s ! k)" using l k t by (rule lockstep_unfinished)
  have cn: "phaseCntr (jobMap s ! k) = g + 1" using lockstep_runnable(3) [OF l r f] c by auto
  have nq: "k \<notin> set (queuedJobs s)" using lockstep_runnable(4) [OF l r f c] .
  have kj: "k \<in> set (jobs s)" using lockstep_runnable(2) [OF l r f] .
  show ?thesis
    using l k cn nq kj f unfolding lockstep_def
    by (auto simp add: step_mid_frame step_mid_nth)
qed

lemma lockstep_retire:
  assumes l: "lockstep g s" and r: "runnable s k" and t: "todo (jobMap s ! k) = []"
  shows "lockstep g (retire k s)"
proof -
  have k: "k < length (jobMap s)" using r by (simp add: runnable_def)
  show ?thesis
    using l k t unfolding lockstep_def
    by (auto simp add: retire_frame retire_nth distinct_removeAll)
qed

lemma lockstep_settle:
  assumes l: "lockstep g s" and r: "runnable s k"
  shows "lockstep g (s\<lparr>jobMap := (jobMap s)[k := (jobMap s ! k)\<lparr>jobPromise := v\<rparr>]\<rparr>)"
proof -
  have k: "k < length (jobMap s)" using r by (simp add: runnable_def)
  show ?thesis
    using l k unfolding lockstep_def by (auto simp add: nth_list_update)
qed

lemma lockstep_step:
  assumes l: "lockstep g s"
  shows "\<exists>g'. lockstep g' (job_step k s)"
proof (cases rule: job_step_cases [of s k])
  case idle
  with l show ?thesis by (auto simp add: job_step_idle)
next
  case (await rest)
  have "lockstep g (job_step k s)"
    unfolding job_step_Await [OF await] using l await by (intro lockstep_Await) simp_all
  then show ?thesis ..
next
  case (phase0 rest)
  have "lockstep g (job_step k s)"
    unfolding job_step_Phase0 [OF phase0] using l phase0 by (intro lockstep_Phase0) simp_all
  then show ?thesis ..
next
  case (phase1 rest)
  have "lockstep g (step_mid k s)" using l phase1 by (intro lockstep_step_mid) simp_all
  then show ?thesis unfolding job_step_Phase1_mid [OF phase1] by (rule lockstep_advance)
next
  case callback
  have "lockstep g (retire k s)" using l callback(1,2) by (rule lockstep_retire)
  then show ?thesis unfolding job_step_done [OF callback] by (rule lockstep_advance)
next
  case settle
  have "lockstep g (job_step k s)"
    unfolding job_step_settle [OF settle] using l settle(1) by (rule lockstep_settle)
  then show ?thesis ..
qed

lemma lockstep_run: "lockstep g s \<Longrightarrow> \<exists>g'. lockstep g' (run sched s)"
proof (induction sched rule: rev_induct)
  case Nil
  then show ?case by (auto simp add: run_Nil)
next
  case (snoc k sched)
  then obtain g' where "lockstep g' (run sched s)" by blast
  then show ?case using lockstep_step by (simp add: run_snoc)
qed

lemma boot_shape: "phaseCntr (boot b) = (if listening (boot b) then 1 else 0)"
  by (simp add: boot_def split: list.splits action.splits)

lemma lockstep_init: "lockstep 0 (startNewPhase (before_start jl c st))"
proof -
  let ?s = "startNewPhase (before_start jl c st)"
  have q: "set (queuedJobs ?s) \<subseteq> set (phasePendingJobs ?s)"
    by (auto simp add: init_frame)
  have c5: "\<forall>i \<in> set (phasePendingJobs ?s). phaseCntr (jobMap ?s ! i) = 0 + 1 \<or> (0 = (0::nat) \<and> phaseCntr (jobMap ?s ! i) = 0)"
    by (auto simp add: init_frame init_nth boot_shape)
  have c6: "\<forall>i \<in> set (queuedJobs ?s). listening (jobMap ?s ! i) \<or> phaseCntr (jobMap ?s ! i) = 0"
    by (auto simp add: init_frame init_nth boot_shape)
  have c2: "\<forall>i. i \<in> set (jobs ?s) \<longleftrightarrow> i < length (jobMap ?s) \<and> \<not> finallyRan (jobMap ?s ! i)"
    by (auto simp add: init_frame init_nth boot_fields split: if_splits)
  have c7: "\<forall>i < length (jobMap ?s). finallyRan (jobMap ?s ! i) \<longrightarrow> todo (jobMap ?s ! i) = []"
    by (auto simp add: init_frame init_nth boot_fields split: if_splits)
  show ?thesis
    unfolding lockstep_def using q c5 c6 c2 c7 init_crashed [of jl c st]
    by (simp add: init_frame)
qed

subsection \<open>Step notifications and the set of jobs\<close>

lemma job_step_phaseCntr:
  assumes x: "x < length (jobMap s)"
  shows "phaseCntr (jobMap (job_step k s) ! x) =
           (if x = k \<and> runnable s k \<and> (\<exists>rest. todo (jobMap s ! k) = Phase # rest)
            then phaseCntr (jobMap s ! x) + 1 else phaseCntr (jobMap s ! x))"
proof (cases "x = k")
  case True
  with x show ?thesis
    by (auto simp add: job_step_self split: list.splits action.splits)
next
  case False
  with x show ?thesis by (simp add: job_step_other)
qed

lemma job_step_count_StepDone:
  "count_list (emitted (job_step k s)) (StepDone i m) =
   count_list (emitted s) (StepDone i m) +
     (if i = k \<and> runnable s k \<and> (\<exists>rest. todo (jobMap s ! k) = Phase # rest)
         \<and> 0 < m \<and> m = phaseCntr (jobMap s ! k) then 1 else 0)"
  by (auto simp add: job_step_trace count_Ready_other notice_def split: list.splits action.splits)

lemma announced_step: "announced s \<Longrightarrow> announced (job_step k s)"
  unfolding announced_def
  by (auto simp add: job_step_length job_step_count_StepDone job_step_phaseCntr)

lemma announced_run: "announced s \<Longrightarrow> announced (run sched s)"
  by (induction sched rule: rev_induct) (simp_all add: run_Nil run_snoc announced_step)


lemma job_step_jobs:
  "jobs (job_step k s) =
     (if runnable s k \<and> todo (jobMap s ! k) = [] \<and> \<not> finallyRan (jobMap s ! k)
      then removeAll k (jobs s) else jobs s)"
proof (cases rule: job_step_cases [of s k])
  case idle
  then show ?thesis by (auto simp add: turn_simps)
next
  case (await rest)
  then show ?thesis by (simp add: turn_simps)
next
  case (phase0 rest)
  then show ?thesis by (simp add: turn_simps)
next
  case (phase1 rest)
  then show ?thesis by (simp add: turn_simps)
next
  case callback
  then show ?thesis by (simp add: turn_simps)
next
  case settle
  then show ?thesis by (simp add: turn_simps)
qed




subsection \<open>Releases and reports in the trace\<close>

lemma unreported_append:
  "unreported i r (xs @ ys) = unreported i (unreported i r xs) ys"
  by (induction i r xs rule: unreported.induct) simp_all

lemma ready_ok_append:
  "ready_ok i r (xs @ ys) = (ready_ok i r xs \<and> ready_ok i (unreported i r xs) ys)"
  by (induction i r xs rule: ready_ok.induct) auto

lemma unreported_silent:
  "\<not> reported i ys \<Longrightarrow> unreported i True ys"
proof (induction ys)
  case Nil
  show ?case by simp
next
  case (Cons e ys)
  then show ?case by (cases e) (auto simp add: reported_def)
qed

lemma ready_ok_between:
  assumes "ready_ok i r (xs @ Ready i # ys @ Ready i # zs)"
  shows "reported i ys"
proof (rule ccontr)
  assume "\<not> reported i ys"
  then have u: "unreported i True ys" by (rule unreported_silent)
  from assms have "ready_ok i True (ys @ Ready i # zs)"
    by (simp add: ready_ok_append)
  then have "ready_ok i (unreported i True ys) (Ready i # zs)"
    by (simp add: ready_ok_append)
  with u show False by simp
qed

lemma unreported_Readys: "unreported i r (map Ready ws) = (r \<or> i \<in> set ws)"
  by (induction ws arbitrary: r) auto

lemma ready_ok_Readys:
  "distinct ws \<Longrightarrow> ready_ok i r (map Ready ws) = (i \<in> set ws \<longrightarrow> \<not> r)"
  by (induction ws arbitrary: r) auto

lemma release_inv_step_mid:
  assumes "release_inv s"
  shows "release_inv (step_mid k s)"
  using assms unfolding release_inv_def
  by (auto simp add: step_mid_frame ready_ok_append unreported_append)

lemma release_inv_retire:
  assumes "release_inv s"
  shows "release_inv (retire k s)"
  using assms unfolding release_inv_def
  by (auto simp add: retire_frame ready_ok_append unreported_append)

lemma lockstep_woken:
  assumes l: "lockstep g s"
  shows "filter (\<lambda>i. i < length (jobMap s)) (woken s) = woken s" "distinct (woken s)"
proof -
  have v: "\<And>i. i \<in> set (jobs s) \<Longrightarrow> i < length (jobMap s)" using l by (rule lockstep_valid)
  have sub: "set (woken s) \<subseteq> set (jobs s)"
    using l by (auto simp add: woken_def lockstep_def dest!: in_set_takeD)
  then show "filter (\<lambda>i. i < length (jobMap s)) (woken s) = woken s"
    using v by (auto simp add: filter_id_conv)
  show "distinct (woken s)"
    using l by (cases "queuedJobs s") (auto simp add: woken_def lockstep_def)
qed

lemma release_inv_advance:
  assumes l: "lockstep g s" and i: "release_inv s"
  shows "release_inv (advance s)"
proof -
  have e: "emitted (advance s) = emitted s @ map Ready (woken s)"
    by (simp add: advance_emitted lockstep_woken(1) [OF l])
  have d: "distinct (woken s)" by (rule lockstep_woken(2) [OF l])
  have dj: "distinct (jobs s)" and qp: "set (queuedJobs s) \<subseteq> set (phasePendingJobs s)"
    using l by (simp_all add: lockstep_def)
  show ?thesis
  proof (cases "phasePendingJobs s = []")
    case True
    then have w: "woken s = take (cap s) (jobs s)" by (simp add: woken_def)
    have none: "\<And>x. \<not> unreported x False (emitted s)"
      using i True by (auto simp add: release_inv_def)
    have p: "set (phasePendingJobs (advance s)) = set (jobs s)"
      using True by (simp add: advance_pending set_new_Set)
    have q: "set (queuedJobs (advance s)) = set (drop (cap s) (jobs s))"
      using True by (simp add: advance_queued set_new_Set)
    show ?thesis
      unfolding release_inv_def
    proof (intro allI conjI impI)
      fix x
      show "ready_ok x False (emitted (advance s))"
        using i none d by (simp add: e ready_ok_append ready_ok_Readys release_inv_def)
      assume "unreported x False (emitted (advance s))"
      then have x: "x \<in> set (take (cap s) (jobs s))"
        using none by (simp add: e unreported_append unreported_Readys w)
      then show "x \<in> set (phasePendingJobs (advance s))"
        by (auto simp add: p dest: in_set_takeD)
      show "x \<notin> set (queuedJobs (advance s))"
        using take_drop_disjoint [OF dj x] by (simp add: q)
    qed
  next
    case False
    then have w: "set (woken s) = (if queuedJobs s = [] then {} else {hd (queuedJobs s)})"
      by (simp add: woken_def set_take1)
    have p: "phasePendingJobs (advance s) = phasePendingJobs s"
      using False by (simp add: advance_pending)
    have q: "queuedJobs (advance s) = removeAll (hd (queuedJobs s)) (queuedJobs s)"
      using False by (simp add: advance_queued)
    have hq: "queuedJobs s \<noteq> [] \<Longrightarrow> hd (queuedJobs s) \<in> set (queuedJobs s)" by simp
    show ?thesis
      unfolding release_inv_def
    proof (intro allI conjI impI)
      fix x
      have "x \<in> set (woken s) \<Longrightarrow> \<not> unreported x False (emitted s)"
        using i hq by (auto simp add: w release_inv_def split: if_splits)
      then show "ready_ok x False (emitted (advance s))"
        using i d by (auto simp add: e ready_ok_append ready_ok_Readys release_inv_def)
      assume "unreported x False (emitted (advance s))"
      then have x: "unreported x False (emitted s) \<or> x \<in> set (woken s)"
        by (simp add: e unreported_append unreported_Readys)
      then show "x \<in> set (phasePendingJobs (advance s))"
        using i qp hq by (auto simp add: p w release_inv_def split: if_splits)
      show "x \<notin> set (queuedJobs (advance s))"
        using x i by (auto simp add: q w release_inv_def split: if_splits)
    qed
  qed
qed

lemma release_inv_step:
  assumes l: "lockstep g s" and i: "release_inv s"
  shows "release_inv (job_step k s)"
proof (cases rule: job_step_cases [of s k])
  case idle
  with i show ?thesis by (simp add: job_step_idle)
next
  case (await rest)
  with i show ?thesis by (simp add: job_step_Await release_inv_def)
next
  case (phase0 rest)
  with i show ?thesis by (simp add: job_step_Phase0 release_inv_def)
next
  case (phase1 rest)
  have "lockstep g (step_mid k s)" using l phase1 by (intro lockstep_step_mid) simp_all
  moreover have "release_inv (step_mid k s)" using i by (rule release_inv_step_mid)
  ultimately show ?thesis unfolding job_step_Phase1_mid [OF phase1] by (rule release_inv_advance)
next
  case callback
  have "lockstep g (retire k s)" using l callback(1,2) by (rule lockstep_retire)
  moreover have "release_inv (retire k s)" using i by (rule release_inv_retire)
  ultimately show ?thesis unfolding job_step_done [OF callback] by (rule release_inv_advance)
next
  case settle
  with i show ?thesis by (simp add: job_step_settle release_inv_def)
qed

lemma release_inv_run:
  assumes "lockstep g s" and "release_inv s"
  shows "release_inv (run sched s)"
proof -
  have "(\<exists>g'. lockstep g' (run sched s)) \<and> release_inv (run sched s)"
  proof (induction sched rule: rev_induct)
    case Nil
    from assms show ?case by (auto simp add: run_Nil)
  next
    case (snoc k sched)
    then obtain g' where l: "lockstep g' (run sched s)" and i: "release_inv (run sched s)" by blast
    show ?case
      using lockstep_step [OF l, of k] release_inv_step [OF l i, of k] by (simp add: run_snoc)
  qed
  then show ?thesis ..
qed

lemma release_inv_init: "release_inv (startNewPhase (before_start jl c st))"
proof -
  have le: "rel_index c (length jl) \<le> length jl" by (rule rel_index_le)
  show ?thesis
    unfolding release_inv_def using le
    by (auto simp add: init_frame init_emitted ready_ok_Readys unreported_Readys)
qed

subsection \<open>Runs do not depend on outcomes\<close>

lemma forget_frame:
  "jobs (forget s) = jobs s"
  "queuedJobs (forget s) = queuedJobs s"
  "phasePendingJobs (forget s) = phasePendingJobs s"
  "concurrency (forget s) = concurrency s"
  "emitted (forget s) = emitted s"
  "crashed (forget s) = crashed s"
  "length (jobMap (forget s)) = length (jobMap s)"
  by (simp_all add: forget_def)

lemma forget_nth:
  "k < length (jobMap s) \<Longrightarrow> jobMap (forget s) ! k = forget_job (jobMap s ! k)"
  by (simp add: forget_def)

lemma forget_job_fields:
  "phaseCntr (forget_job j) = phaseCntr j"
  "listening (forget_job j) = listening j"
  "todo (forget_job j) = todo j"
  "finallyRan (forget_job j) = finallyRan j"
  "(jobPromise (forget_job j) = None) = (jobPromise j = None)"
  by (simp_all add: forget_job_def)

lemma forget_runnable: "runnable (forget s) k = runnable s k"
  by (auto simp add: runnable_def forget_frame forget_nth forget_job_fields)

lemma forget_emit_ready: "forget (emit_ready i s) = emit_ready i (forget s)"
  by (simp add: emit_ready_def forget_def map_update forget_job_def)

lemma forget_fold_emit_ready: "forget (fold emit_ready is s) = fold emit_ready is (forget s)"
  by (induction "is" arbitrary: s) (simp_all add: forget_emit_ready)

lemma forget_update:
  "forget (s\<lparr>queuedJobs := q, phasePendingJobs := p\<rparr>) = (forget s)\<lparr>queuedJobs := q, phasePendingJobs := p\<rparr>"
  "forget (s\<lparr>queuedJobs := q\<rparr>) = (forget s)\<lparr>queuedJobs := q\<rparr>"
  by (simp_all add: forget_def)

lemma forget_startNewPhase: "forget (startNewPhase s) = startNewPhase (forget s)"
  by (simp add: startNewPhase_def Let_def forget_update forget_fold_emit_ready forget_frame fold_emit_ready_frame)

lemma forget_startQueuedJob: "forget (startQueuedJob s) = startQueuedJob (forget s)"
  by (simp add: startQueuedJob_def Let_def forget_update forget_emit_ready forget_frame emit_ready_frame
      split: list.splits)

lemma forget_advance: "forget (advance s) = advance (forget s)"
  by (simp add: advance_def forget_startNewPhase forget_startQueuedJob forget_frame)

lemma forget_step_mid: "k < length (jobMap s) \<Longrightarrow> forget (step_mid k s) = step_mid k (forget s)"
  by (simp add: step_mid_def forget_def map_update forget_job_def)

lemma forget_retire: "k < length (jobMap s) \<Longrightarrow> forget (retire k s) = retire k (forget s)"
  by (simp add: retire_def forget_def map_update forget_job_def)

lemma forget_touch:
  "k < length (jobMap s) \<Longrightarrow>
   forget (s\<lparr>jobMap := (jobMap s)[k := (jobMap s ! k)\<lparr>todo := rest\<rparr>]\<rparr>)
     = (forget s)\<lparr>jobMap := (jobMap (forget s))[k := (jobMap (forget s) ! k)\<lparr>todo := rest\<rparr>]\<rparr>"
  "k < length (jobMap s) \<Longrightarrow>
   forget (s\<lparr>jobMap := (jobMap s)[k := (jobMap s ! k)\<lparr>todo := rest, listening := True, phaseCntr := 1\<rparr>]\<rparr>)
     = (forget s)\<lparr>jobMap := (jobMap (forget s))[k := (jobMap (forget s) ! k)\<lparr>todo := rest, listening := True, phaseCntr := 1\<rparr>]\<rparr>"
  "k < length (jobMap s) \<Longrightarrow>
   forget (s\<lparr>jobMap := (jobMap s)[k := (jobMap s ! k)\<lparr>jobPromise := Some (outcome (jobMap s ! k))\<rparr>]\<rparr>)
     = (forget s)\<lparr>jobMap := (jobMap (forget s))[k := (jobMap (forget s) ! k)\<lparr>jobPromise := Some (outcome (jobMap (forget s) ! k))\<rparr>]\<rparr>"
  by (simp_all add: forget_def map_update forget_job_def)

lemma forget_step: "forget (job_step k s) = job_step k (forget s)"
proof (cases rule: job_step_cases [of s k])
  case idle
  then show ?thesis by (simp add: job_step_idle forget_runnable)
next
  case (await rest)
  then have k: "k < length (jobMap s)" by (simp add: runnable_def)
  have r: "runnable (forget s) k" using await by (simp add: forget_runnable)
  have t: "todo (jobMap (forget s) ! k) = Await # rest"
    using await k by (simp add: forget_nth forget_job_fields)
  show ?thesis
    unfolding job_step_Await [OF await] job_step_Await [OF r t] by (rule forget_touch(1) [OF k])
next
  case (phase0 rest)
  then have k: "k < length (jobMap s)" by (simp add: runnable_def)
  have r: "runnable (forget s) k" using phase0 by (simp add: forget_runnable)
  have t: "todo (jobMap (forget s) ! k) = Phase # rest"
    using phase0 k by (simp add: forget_nth forget_job_fields)
  have c: "phaseCntr (jobMap (forget s) ! k) = 0"
    using phase0 k by (simp add: forget_nth forget_job_fields)
  show ?thesis
    unfolding job_step_Phase0 [OF phase0] job_step_Phase0 [OF r t c] by (rule forget_touch(2) [OF k])
next
  case (phase1 rest)
  then have k: "k < length (jobMap s)" by (simp add: runnable_def)
  have r: "runnable (forget s) k" using phase1 by (simp add: forget_runnable)
  have t: "todo (jobMap (forget s) ! k) = Phase # rest"
    using phase1 k by (simp add: forget_nth forget_job_fields)
  have c: "0 < phaseCntr (jobMap (forget s) ! k)"
    using phase1 k by (simp add: forget_nth forget_job_fields)
  show ?thesis
    by (simp add: job_step_Phase1_mid [OF phase1] job_step_Phase1_mid [OF r t c]
        forget_advance forget_step_mid [OF k])
next
  case callback
  then have k: "k < length (jobMap s)" by (simp add: runnable_def)
  have r: "runnable (forget s) k" using callback by (simp add: forget_runnable)
  have t: "todo (jobMap (forget s) ! k) = []"
    using callback k by (simp add: forget_nth forget_job_fields)
  have f: "\<not> finallyRan (jobMap (forget s) ! k)"
    using callback k by (simp add: forget_nth forget_job_fields)
  show ?thesis
    by (simp add: job_step_done [OF callback] job_step_done [OF r t f] forget_advance forget_retire [OF k])
next
  case settle
  then have k: "k < length (jobMap s)" by (simp add: runnable_def)
  have r: "runnable (forget s) k" using settle by (simp add: forget_runnable)
  have t: "todo (jobMap (forget s) ! k) = []"
    using settle k by (simp add: forget_nth forget_job_fields)
  have f: "finallyRan (jobMap (forget s) ! k)"
    using settle k by (simp add: forget_nth forget_job_fields)
  show ?thesis
    unfolding job_step_settle [OF settle] job_step_settle [OF r t f] by (rule forget_touch(3) [OF k])
qed

lemma forget_run: "forget (run sched s) = run sched (forget s)"
  by (induction sched rule: rev_induct) (simp_all add: run_Nil run_snoc forget_step)

lemma forget_boot:
  "fst b' = fst b \<Longrightarrow> forget_job (boot b') = forget_job (boot b)"
  by (simp add: boot_def forget_job_def split: list.splits action.splits)

lemma args_seen_cong: "map snd jl' = map snd jl \<Longrightarrow> k < length jl \<Longrightarrow> args_seen jl' st k = args_seen jl st k"
proof -
  assume m: "map snd jl' = map snd jl" and k: "k < length jl"
  have len: "length jl' = length jl" using arg_cong [OF m, of length] by simp
  have nth: "snd (jl' ! x) = snd (jl ! x)" if "x < length jl" for x
    using arg_cong [OF m, of "\<lambda>xs. xs ! x"] that len by simp
  have "filter (\<lambda>x. snd (jl' ! x) = snd (jl' ! k)) [0..<k] = filter (\<lambda>x. snd (jl ! x) = snd (jl ! k)) [0..<k]"
    using k by (intro filter_cong) (simp_all add: nth)
  then show ?thesis using k by (simp add: args_seen_def nth)
qed

lemma forget_before_start:
  assumes m: "map snd jl' = map snd jl"
    and a: "\<forall>k < length jl. \<forall>xs. fst (fst (jl' ! k) xs) = fst (fst (jl ! k) xs)"
  shows "forget (before_start jl' c st) = forget (before_start jl c st)"
proof -
  have len: "length jl' = length jl" using arg_cong [OF m, of length] by simp
  have el: "forget_job (boot (fst (jl' ! k) (args_seen jl' st k)))
            = forget_job (boot (fst (jl ! k) (args_seen jl st k)))" if "k < length jl" for k
  proof (rule forget_boot)
    show "fst (fst (jl' ! k) (args_seen jl' st k)) = fst (fst (jl ! k) (args_seen jl st k))"
      using a that by (simp add: args_seen_cong [OF m that])
  qed
  have "map forget_job (handles jl' st) = map forget_job (handles jl st)"
    unfolding handles_def len map_map
    by (rule map_cong) (simp_all add: el)
  then show ?thesis by (simp add: forget_def before_start_def len)
qed

subsection \<open>No lost signal\<close>

lemma lockstep_sets:
  assumes "lockstep g a"
  shows "distinct (jobs a)" "set (queuedJobs a) \<subseteq> set (phasePendingJobs a)"
    "set (phasePendingJobs a) \<subseteq> set (jobs a)" "\<forall>i \<in> set (jobs a). i < length (jobMap a)"
  using assms by (simp_all add: lockstep_def)

lemma job_step_concurrency: "concurrency (job_step k s) = concurrency s"
proof (cases rule: job_step_cases [of s k])
  case (phase1 rest)
  then show ?thesis by (simp add: job_step_Phase1_mid advance_frame step_mid_frame)
qed (simp_all add: turn_simps)

lemma run_concurrency: "concurrency (run sched s) = concurrency s"
  by (induction sched rule: rev_induct) (simp_all add: run_Nil run_snoc job_step_concurrency)

lemma cap_pos: "1 \<le> concurrency a \<Longrightarrow> jobs a \<noteq> [] \<Longrightarrow> 0 < cap a"
  by (cases "jobs a") (simp_all add: cap_def rel_index_nonneg)

lemma hd_in_take: "xs \<noteq> [] \<Longrightarrow> 0 < n \<Longrightarrow> hd xs \<in> set (take n xs)"
  by (cases xs; cases n) simp_all

lemma in_take_or_drop: "x \<in> set xs \<Longrightarrow> x \<in> set (take n xs) \<or> x \<in> set (drop n xs)"
  using append_take_drop_id [of n xs] by (metis Un_iff set_append)

lemma orderly_advance_new:
  assumes d: "distinct (jobs a)" and v: "\<forall>i \<in> set (jobs a). i < length (jobMap a)"
    and t: "tidy a" and c: "1 \<le> concurrency a" and e: "phasePendingJobs a = []"
  shows "orderly (advance a)"
proof -
  have w: "woken a = take (cap a) (jobs a)" using e by (simp add: woken_def)
  have p: "set (phasePendingJobs (advance a)) = set (jobs a)"
    using e by (simp add: advance_pending set_new_Set)
  have q: "set (queuedJobs (advance a)) = set (drop (cap a) (jobs a))"
    using e by (simp add: advance_queued set_new_Set)
  have t1: "\<forall>i < length (jobMap (advance a)). phaseCntr (jobMap (advance a) ! i) = 0 \<longrightarrow>
              list_all (\<lambda>a. a = Await) (todo (jobMap (advance a) ! i))"
    using t by (simp add: tidy_def advance_frame advance_nth)
  have t2: "\<forall>x \<in> set (phasePendingJobs (advance a)). listening (jobMap (advance a) ! x) \<longrightarrow>
              x \<in> set (queuedJobs (advance a))"
  proof (intro ballI impI)
    fix x assume x: "x \<in> set (phasePendingJobs (advance a))"
      and l: "listening (jobMap (advance a) ! x)"
    from x p have xj: "x \<in> set (jobs a)" by simp
    with v have "x < length (jobMap a)" by simp
    with l have "x \<notin> set (take (cap a) (jobs a))"
      by (auto simp add: advance_nth w split: if_splits)
    with in_take_or_drop [OF xj, of "cap a"] show "x \<in> set (queuedJobs (advance a))"
      using q by simp
  qed
  have t3: "jobs (advance a) \<noteq> [] \<longrightarrow>
              (\<exists>x \<in> set (phasePendingJobs (advance a)). x \<notin> set (queuedJobs (advance a)))"
  proof
    assume "jobs (advance a) \<noteq> []"
    then have n: "jobs a \<noteq> []" by (simp add: advance_frame)
    have h: "hd (jobs a) \<in> set (take (cap a) (jobs a))"
      by (rule hd_in_take [OF n cap_pos [OF c n]])
    have "hd (jobs a) \<notin> set (drop (cap a) (jobs a))"
      by (rule take_drop_disjoint [OF d h])
    moreover have "hd (jobs a) \<in> set (jobs a)" using n by simp
    ultimately show "\<exists>x \<in> set (phasePendingJobs (advance a)). x \<notin> set (queuedJobs (advance a))"
      using p q by blast
  qed
  show ?thesis unfolding orderly_def tidy_def using t1 t2 t3 by blast
qed

lemma orderly_advance_queue:
  assumes q: "set (queuedJobs a) \<subseteq> set (phasePendingJobs a)"
    and p: "set (phasePendingJobs a) \<subseteq> set (jobs a)"
    and v: "\<forall>i \<in> set (jobs a). i < length (jobMap a)"
    and t: "tidy a" and e: "phasePendingJobs a \<noteq> []"
  shows "orderly (advance a)"
proof -
  have w: "woken a = take 1 (queuedJobs a)" using e by (simp add: woken_def)
  have pe: "phasePendingJobs (advance a) = phasePendingJobs a"
    using e by (simp add: advance_pending)
  have qe: "queuedJobs (advance a) = removeAll (hd (queuedJobs a)) (queuedJobs a)"
    using e by (simp add: advance_queued)
  have t1: "\<forall>i < length (jobMap (advance a)). phaseCntr (jobMap (advance a) ! i) = 0 \<longrightarrow>
              list_all (\<lambda>a. a = Await) (todo (jobMap (advance a) ! i))"
    using t by (simp add: tidy_def advance_frame advance_nth)
  have t2: "\<forall>x \<in> set (phasePendingJobs (advance a)). listening (jobMap (advance a) ! x) \<longrightarrow>
              x \<in> set (queuedJobs (advance a))"
  proof (intro ballI impI)
    fix x assume x: "x \<in> set (phasePendingJobs (advance a))"
      and l: "listening (jobMap (advance a) ! x)"
    from x pe have xp: "x \<in> set (phasePendingJobs a)" by simp
    with p v have xl: "x < length (jobMap a)" by blast
    from l xl have nw: "x \<notin> set (take 1 (queuedJobs a))" and la: "listening (jobMap a ! x)"
      by (auto simp add: advance_nth w split: if_splits)
    from t xp la have xq: "x \<in> set (queuedJobs a)" by (simp add: tidy_def)
    with nw have "x \<noteq> hd (queuedJobs a)" by (cases "queuedJobs a") auto
    with xq show "x \<in> set (queuedJobs (advance a))" by (simp add: qe)
  qed
  have t3: "\<exists>x \<in> set (phasePendingJobs (advance a)). x \<notin> set (queuedJobs (advance a))"
  proof (cases "queuedJobs a")
    case Nil
    with e show ?thesis by (cases "phasePendingJobs a") (auto simp add: pe qe)
  next
    case (Cons h rest)
    with q have "h \<in> set (phasePendingJobs a)" by simp
    with Cons show ?thesis by (auto simp add: pe qe)
  qed
  show ?thesis unfolding orderly_def tidy_def using t1 t2 t3 by blast
qed

lemma orderly_advance:
  assumes l: "lockstep g a" and t: "tidy a" and c: "1 \<le> concurrency a"
  shows "orderly (advance a)"
proof (cases "phasePendingJobs a = []")
  case True
  show ?thesis by (rule orderly_advance_new [OF lockstep_sets(1) [OF l] lockstep_sets(4) [OF l] t c True])
next
  case False
  show ?thesis
    by (rule orderly_advance_queue [OF lockstep_sets(2) [OF l] lockstep_sets(3) [OF l] lockstep_sets(4) [OF l] t False])
qed

lemma tidy_step_mid:
  assumes t: "tidy s" and k: "k < length (jobMap s)"
  shows "tidy (step_mid k s)"
  using t k unfolding tidy_def by (auto simp add: step_mid_frame step_mid_nth)

lemma tidy_retire:
  assumes t: "tidy s" and k: "k < length (jobMap s)"
  shows "tidy (retire k s)"
  using t k unfolding tidy_def by (auto simp add: retire_frame retire_nth)

lemma orderly_step:
  assumes l: "lockstep g s" and o: "orderly s" and c: "1 \<le> concurrency s"
  shows "orderly (job_step k s)"
proof (cases rule: job_step_cases [of s k])
  case idle
  with o show ?thesis by (simp add: job_step_idle)
next
  case (await rest)
  then have k: "k < length (jobMap s)" by (simp add: runnable_def)
  with o await show ?thesis
    unfolding job_step_Await [OF await] orderly_def tidy_def
    by (auto simp add: nth_list_update)
next
  case (phase0 rest)
  then have k: "k < length (jobMap s)" by (simp add: runnable_def)
  with o phase0 have False by (auto simp add: orderly_def tidy_def)
  then show ?thesis ..
next
  case (phase1 rest)
  then have k: "k < length (jobMap s)" by (simp add: runnable_def)
  have t: "todo (jobMap s ! k) \<noteq> []" using phase1 by simp
  have lm: "lockstep g (step_mid k s)"
    by (rule lockstep_step_mid [OF l phase1(1) phase1(3) t])
  have tm: "tidy (step_mid k s)" using o k by (simp add: orderly_def tidy_step_mid)
  have cm: "1 \<le> concurrency (step_mid k s)" using c by (simp add: step_mid_frame)
  show ?thesis
    unfolding job_step_Phase1_mid [OF phase1] by (rule orderly_advance [OF lm tm cm])
next
  case callback
  then have k: "k < length (jobMap s)" by (simp add: runnable_def)
  have lm: "lockstep g (retire k s)"
    by (rule lockstep_retire [OF l callback(1) callback(2)])
  have tm: "tidy (retire k s)" using o k by (simp add: orderly_def tidy_retire)
  have cm: "1 \<le> concurrency (retire k s)" using c by (simp add: retire_frame)
  show ?thesis
    unfolding job_step_done [OF callback] by (rule orderly_advance [OF lm tm cm])
next
  case settle
  then have k: "k < length (jobMap s)" by (simp add: runnable_def)
  with o show ?thesis
    unfolding job_step_settle [OF settle] orderly_def tidy_def
    by (auto simp add: nth_list_update)
qed

lemma boot_protocol:
  "protocol_start (fst b) \<Longrightarrow> phaseCntr (boot b) = 0 \<Longrightarrow> list_all (\<lambda>a. a = Await) (todo (boot b))"
  by (cases "fst b") (auto simp add: boot_def protocol_start_def split: action.splits)

lemma orderly_init:
  assumes c: "1 \<le> c"
    and ps: "\<forall>k < length jl. protocol_start (fst (fst (jl ! k) (args_seen jl st k)))"
  shows "orderly (startNewPhase (before_start jl c st))"
proof -
  let ?init = "startNewPhase (before_start jl c st)"
  have r: "rel_index c (length jl) = min (nat c) (length jl)"
    using c by (simp add: rel_index_nonneg)
  have t1: "\<forall>i < length (jobMap ?init). phaseCntr (jobMap ?init ! i) = 0 \<longrightarrow>
              list_all (\<lambda>a. a = Await) (todo (jobMap ?init ! i))"
    using ps by (auto simp add: init_frame init_nth boot_protocol)
  have t2: "\<forall>x \<in> set (phasePendingJobs ?init). listening (jobMap ?init ! x) \<longrightarrow> x \<in> set (queuedJobs ?init)"
    by (auto simp add: init_frame init_nth split: if_splits)
  have t3: "jobs ?init \<noteq> [] \<longrightarrow> (\<exists>x \<in> set (phasePendingJobs ?init). x \<notin> set (queuedJobs ?init))"
  proof
    assume "jobs ?init \<noteq> []"
    then have n: "0 < length jl" by (simp add: init_frame)
    with c have "0 < rel_index c (length jl)" unfolding r by simp
    with n show "\<exists>x \<in> set (phasePendingJobs ?init). x \<notin> set (queuedJobs ?init)"
      by (auto simp add: init_frame intro!: bexI [of _ 0])
  qed
  show ?thesis unfolding orderly_def tidy_def using t1 t2 t3 by blast
qed

lemma orderly_run:
  assumes c: "1 \<le> c"
    and ps: "\<forall>k < length jl. protocol_start (fst (fst (jl ! k) (args_seen jl st k)))"
  shows "orderly (run sched (startNewPhase (before_start jl c st)))"
proof (induction sched rule: rev_induct)
  case Nil
  show ?case unfolding run_Nil by (rule orderly_init [OF c ps])
next
  case (snoc k sched)
  obtain g where l: "lockstep g (run sched (startNewPhase (before_start jl c st)))"
    using lockstep_run [OF lockstep_init] by blast
  have cc: "1 \<le> concurrency (run sched (startNewPhase (before_start jl c st)))"
    using c by (simp add: run_concurrency init_frame)
  show ?case unfolding run_snoc by (rule orderly_step [OF l snoc.IH cc])
qed

subsection \<open>Progress\<close>

lemma progress:
  assumes l: "lockstep g s" and cb: "callback_once s" and o: "orderly s"
    and k: "k < length (jobMap s)" and p: "jobPromise (jobMap s ! k) = None"
  shows "\<exists>x < length (jobMap s). runnable s x"
proof (cases "finallyRan (jobMap s ! k)")
  case True
  with cb k have "\<not> listening (jobMap s ! k)" by (simp add: callback_once_def)
  with k p have "runnable s k" by (simp add: runnable_def)
  with k show ?thesis by blast
next
  case False
  with l k have "k \<in> set (jobs s)" by (simp add: lockstep_def)
  then have "jobs s \<noteq> []" by auto
  with o obtain x where xp: "x \<in> set (phasePendingJobs s)" and xq: "x \<notin> set (queuedJobs s)"
    by (auto simp add: orderly_def)
  from o xp xq have nl: "\<not> listening (jobMap s ! x)" by (auto simp add: orderly_def tidy_def)
  from xp lockstep_sets(3) [OF l] have xj: "x \<in> set (jobs s)" by blast
  with l have xl: "x < length (jobMap s)" and nf: "\<not> finallyRan (jobMap s ! x)"
    by (simp_all add: lockstep_def)
  from cb xl nf have "jobPromise (jobMap s ! x) = None" by (auto simp add: callback_once_def)
  with xl nl have "runnable s x" by (simp add: runnable_def)
  with xl show ?thesis by blast
qed

lemma sum_list_nth_sum: "sum_list (map f xs) = (\<Sum>i \<in> {0..<length xs}. f (xs ! i))"
proof -
  have "map f xs = map f (map (\<lambda>i. xs ! i) [0..<length xs])" by (simp only: map_nth)
  also have "\<dots> = map (\<lambda>i. f (xs ! i)) [0..<length xs]" by (simp only: map_map comp_def)
  finally have "sum_list (map f xs) = sum_list (map (\<lambda>i. f (xs ! i)) [0..<length xs])"
    by (rule arg_cong)
  then show ?thesis by (simp add: interv_sum_list_conv_sum_set_nat)
qed

lemma sum_list_dec:
  assumes len: "length ys = length xs" and k: "k < length xs"
    and o: "\<forall>x < length xs. x \<noteq> k \<longrightarrow> f (ys ! x) = f (xs ! x)"
    and d: "Suc (f (ys ! k)) = f (xs ! k)"
  shows "Suc (sum_list (map f ys)) = sum_list (map f (xs :: 'a list))"
proof -
  have fin: "finite {0..<length xs}" and kin: "k \<in> {0..<length xs}" using k by simp_all
  have r: "(\<Sum>i \<in> {0..<length xs} - {k}. f (ys ! i)) = (\<Sum>i \<in> {0..<length xs} - {k}. f (xs ! i))"
    by (rule sum.cong) (use o in auto)
  have "sum_list (map f xs) = f (xs ! k) + (\<Sum>i \<in> {0..<length xs} - {k}. f (xs ! i))"
    unfolding sum_list_nth_sum by (rule sum.remove [OF fin kin])
  moreover have "sum_list (map f ys) = f (ys ! k) + (\<Sum>i \<in> {0..<length xs} - {k}. f (ys ! i))"
    unfolding sum_list_nth_sum len by (rule sum.remove [OF fin kin])
  ultimately show ?thesis using r d by simp
qed

lemma work_step:
  assumes r: "runnable s k"
  shows "Suc (work (job_step k s)) = work s"
  unfolding work_def
proof (rule sum_list_dec [where k = k])
  show "length (jobMap (job_step k s)) = length (jobMap s)" by (rule job_step_length)
next
  show "k < length (jobMap s)" using r by (simp add: runnable_def)
next
  show "\<forall>x < length (jobMap s). x \<noteq> k \<longrightarrow> job_work (jobMap (job_step k s) ! x) = job_work (jobMap s ! x)"
  proof (intro allI impI)
    fix x assume x: "x < length (jobMap s)" and n: "x \<noteq> k"
    show "job_work (jobMap (job_step k s) ! x) = job_work (jobMap s ! x)"
      unfolding job_step_other [OF x n] by (simp add: job_work_def)
  qed
next
  have k: "k < length (jobMap s)" and p: "jobPromise (jobMap s ! k) = None"
    using r by (simp_all add: runnable_def)
  show "Suc (job_work (jobMap (job_step k s) ! k)) = job_work (jobMap s ! k)"
    using r p by (simp add: job_step_self [OF k] job_work_def split: list.splits action.splits)
qed

lemma work_zero:
  assumes w: "work s = 0" and k: "k < length (jobMap s)"
  shows "jobPromise (jobMap s ! k) \<noteq> None"
proof -
  from k have "jobMap s ! k \<in> set (jobMap s)" by simp
  with w have "job_work (jobMap s ! k) = 0" by (simp add: work_def)
  then show ?thesis by (simp add: job_work_def split: if_splits)
qed

lemma settled_no_work:
  assumes cb: "callback_once s" and a: "\<forall>k < length (jobMap s). jobPromise (jobMap s ! k) \<noteq> None"
  shows "work s = 0"
proof -
  have "\<forall>j \<in> set (jobMap s). job_work j = 0"
  proof
    fix j assume "j \<in> set (jobMap s)"
    then obtain k where k: "k < length (jobMap s)" and j: "jobMap s ! k = j"
      by (auto simp add: in_set_conv_nth)
    from a k have p: "jobPromise (jobMap s ! k) \<noteq> None" by simp
    with cb k have "finallyRan (jobMap s ! k)" and "todo (jobMap s ! k) = []"
      by (simp_all add: callback_once_def)
    with p j show "job_work j = 0" by (auto simp add: job_work_def)
  qed
  then show ?thesis by (simp add: work_def)
qed

subsection \<open>The aggregate\<close>

lemma those_None: "(those xs = None) = (None \<in> set xs)"
  by (induction xs) (auto split: option.splits)

lemma those_map_Some: "those (map Some xs) = Some xs"
  by (induction xs) simp_all

lemma aggregate_work:
  assumes cb: "callback_once s" and pk: "promise_kept s"
  shows "aggregate s = (if work s = 0 then Some (map outcome (jobMap s)) else None)"
proof (cases "work s = 0")
  case True
  have eq: "map jobPromise (jobMap s) = map Some (map outcome (jobMap s))"
  proof (rule nth_equalityI)
    fix i assume "i < length (map jobPromise (jobMap s))"
    then have i: "i < length (jobMap s)" by simp
    from work_zero [OF True i] pk i show "map jobPromise (jobMap s) ! i = map Some (map outcome (jobMap s)) ! i"
      by (auto simp add: promise_kept_def)
  qed simp
  show ?thesis unfolding aggregate_def eq those_map_Some using True by simp
next
  case False
  have "\<not> (\<forall>k < length (jobMap s). jobPromise (jobMap s ! k) \<noteq> None)"
    using settled_no_work [OF cb] False by blast
  then obtain k where k: "k < length (jobMap s)" and n: "jobPromise (jobMap s ! k) = None" by blast
  from k have "jobPromise (jobMap s ! k) \<in> set (map jobPromise (jobMap s))" by simp
  with n have "None \<in> set (map jobPromise (jobMap s))" by simp
  with False show ?thesis by (simp add: aggregate_def those_None)
qed

lemma run_outcomes:
  "map outcome (jobMap (run sched (startNewPhase (before_start jl c st))))
     = map (\<lambda>i. snd (fst (jl ! i) (args_seen jl st i))) [0..<length jl]"
proof (rule nth_equalityI)
  show "length (map outcome (jobMap (run sched (startNewPhase (before_start jl c st)))))
      = length (map (\<lambda>i. snd (fst (jl ! i) (args_seen jl st i))) [0..<length jl])"
    by (simp add: run_length init_frame)
next
  fix i assume "i < length (map outcome (jobMap (run sched (startNewPhase (before_start jl c st)))))"
  then have i: "i < length jl" by (simp add: run_length init_frame)
  then show "map outcome (jobMap (run sched (startNewPhase (before_start jl c st)))) ! i
      = map (\<lambda>i. snd (fst (jl ! i) (args_seen jl st i))) [0..<length jl] ! i"
    by (simp add: run_length init_frame run_outcome init_nth boot_fields)
qed

subsection \<open>Every run can be brought to its end\<close>

lemma reach_end:
  assumes c: "1 \<le> c"
    and ps: "\<forall>k < length jl. protocol_start (fst (fst (jl ! k) (args_seen jl st k)))"
  shows "\<exists>more. work (run (sched @ more) (startNewPhase (before_start jl c st))) = 0"
proof (induction w \<equiv> "work (run sched (startNewPhase (before_start jl c st)))" arbitrary: sched)
  case 0
  then have "work (run (sched @ []) (startNewPhase (before_start jl c st))) = 0" by simp
  then show ?case by blast
next
  case (Suc w)
  let ?s = "run sched (startNewPhase (before_start jl c st))"
  obtain g where l: "lockstep g ?s" using lockstep_run [OF lockstep_init] by blast
  have cb: "callback_once ?s" by (rule callback_once_run [OF callback_once_init])
  have o: "orderly ?s" by (rule orderly_run [OF c ps])
  have "\<not> (\<forall>k < length (jobMap ?s). jobPromise (jobMap ?s ! k) \<noteq> None)"
  proof
    assume "\<forall>k < length (jobMap ?s). jobPromise (jobMap ?s ! k) \<noteq> None"
    from settled_no_work [OF cb this] Suc(2) show False by simp
  qed
  then obtain k where k: "k < length (jobMap ?s)" and n: "jobPromise (jobMap ?s ! k) = None" by blast
  obtain x where r: "runnable ?s x" using progress [OF l cb o k n] by blast
  have "w = work (run (sched @ [x]) (startNewPhase (before_start jl c st)))"
    using work_step [OF r] Suc(2) by (simp add: run_snoc)
  from Suc(1) [OF this] obtain more where
    "work (run ((sched @ [x]) @ more) (startNewPhase (before_start jl c st))) = 0" by blast
  then have "work (run (sched @ (x # more)) (startNewPhase (before_start jl c st))) = 0" by simp
  then show ?case by blast
qed

subsection \<open>The turn in which a job terminates\<close>

lemma woken_valid:
  assumes l: "lockstep g a"
  shows "\<forall>i \<in> set (woken a). i < length (jobMap a)"
proof
  fix i assume "i \<in> set (woken a)"
  then have "i \<in> set (jobs a) \<or> i \<in> set (queuedJobs a)"
    by (auto simp add: woken_def dest: in_set_takeD split: if_splits)
  with lockstep_sets(2,3) [OF l] have "i \<in> set (jobs a)" by blast
  with lockstep_sets(4) [OF l] show "i < length (jobMap a)" by blast
qed

lemma callback_turn:
  assumes l: "lockstep g s" and r: "runnable s k" and t: "todo (jobMap s ! k) = []"
    and f: "\<not> finallyRan (jobMap s ! k)"
  shows "jobs (job_step k s) = removeAll k (jobs s)"
    and "emitted (job_step k s) =
           emitted s @ JobDone k # map Ready
             (if removeAll k (phasePendingJobs s) = []
              then take (rel_index (concurrency s) (length (removeAll k (jobs s)))) (removeAll k (jobs s))
              else take 1 (removeAll k (queuedJobs s)))"
proof -
  have lm: "lockstep g (retire k s)" by (rule lockstep_retire [OF l r t])
  have fl: "filter (\<lambda>i. i < length (jobMap (retire k s))) (woken (retire k s)) = woken (retire k s)"
    using woken_valid [OF lm] by (simp add: filter_id_conv)
  show "jobs (job_step k s) = removeAll k (jobs s)"
    by (simp add: job_step_done [OF r t f] advance_frame retire_frame)
  have "emitted (job_step k s) = emitted s @ JobDone k # map Ready (woken (retire k s))"
    unfolding job_step_done [OF r t f] advance_emitted fl by (simp add: retire_frame)
  then show "emitted (job_step k s) =
           emitted s @ JobDone k # map Ready
             (if removeAll k (phasePendingJobs s) = []
              then take (rel_index (concurrency s) (length (removeAll k (jobs s)))) (removeAll k (jobs s))
              else take 1 (removeAll k (queuedJobs s)))"
    by (simp add: woken_def cap_def retire_frame)
qed

section \<open>The claims\<close>

subsection \<open>C1\<close>



subsection \<open>C2\<close>

text \<open>
  C2 (order and completeness of the aggregate). Whenever the aggregate of
  \<^verbatim>\<open>pSettle\<close> has resolved, to \<open>rs\<close>, then every promise has settled, and \<open>rs\<close> is
  the list of the outcomes of the job functions in the order of the job list, one entry
  per job, whatever the schedule was: entry \<open>i\<close> is how the \<open>i\<close>-th function ends on
  the arguments it was called with (\<open>args_seen\<close>).
\<close>

theorem aggregate_in_input_order:
  assumes "aggregate (run sched (fst (phaseSyncedSettle jl c st))) = Some rs"
  shows "rs = map (\<lambda>i. snd (fst (jl ! i) (args_seen jl st i))) [0..<length jl]
       \<and> list_all (\<lambda>j. jobPromise j \<noteq> None) (jobMap (run sched (fst (phaseSyncedSettle jl c st))))"
proof -
  let ?init = "startNewPhase (before_start jl c st)"
  let ?fin = "run sched ?init"
  have m: "map jobPromise (jobMap ?fin) = map Some rs"
    using assms by (simp add: aggregate_def phaseSyncedSettle_eq those_Some)
  have len: "length rs = length jl"
    using arg_cong [OF m, of length] by (simp add: run_length init_frame)
  have nth: "jobPromise (jobMap ?fin ! i) = Some (rs ! i)" if "i < length jl" for i
    using arg_cong [OF m, of "\<lambda>xs. xs ! i"] that len by (simp add: run_length init_frame)
  have kept: "promise_kept ?fin"
    by (rule promise_kept_run) (rule promise_kept_init)
  have "rs ! i = snd (fst (jl ! i) (args_seen jl st i))" if "i < length jl" for i
  proof -
    have "jobPromise (jobMap ?fin ! i) = Some (outcome (jobMap ?fin ! i))"
      using kept that nth [OF that] by (auto simp add: promise_kept_def run_length init_frame)
    moreover have "outcome (jobMap ?fin ! i) = outcome (jobMap ?init ! i)"
      using that by (simp add: run_outcome init_frame)
    moreover have "outcome (jobMap ?init ! i) = snd (fst (jl ! i) (args_seen jl st i))"
      using that by (simp add: init_nth boot_fields)
    ultimately show ?thesis using nth [OF that] by simp
  qed
  then have "rs = map (\<lambda>i. snd (fst (jl ! i) (args_seen jl st i))) [0..<length jl]"
    using len by (intro nth_equalityI) simp_all
  moreover have "list_all (\<lambda>j. jobPromise j \<noteq> None) (jobMap ?fin)"
    using nth by (simp add: list_all_length run_length init_frame)
  ultimately show ?thesis by (simp add: phaseSyncedSettle_eq)
qed

theorem aggregate_in_input_order_witness:
  "aggregate (run demo_schedule (fst (phaseSyncedSettle demo_jobs 2 no_arrays)))
     = Some [Fulfilled 7, Fulfilled 7, Rejected 3]
   \<and> [Fulfilled 7, Fulfilled 7, Rejected 3]
     = map (\<lambda>i. snd (fst (demo_jobs ! i) (args_seen demo_jobs no_arrays i))) [0..<length demo_jobs]"
proof -
  have h: "aggregate (run demo_schedule (fst (phaseSyncedSettle demo_jobs 2 no_arrays)))
     = Some [Fulfilled 7, Fulfilled 7, Rejected 3]"
    by code_simp
  from aggregate_in_input_order [OF h] h show ?thesis by simp
qed

subsection \<open>C3\<close>

text \<open>
  C3 (cap respected at phase start). The configuration has a non-negative integer
  \<open>concurrency = c\<close>; \<open>jobs\<close> is a set (no duplicates) of keys of \<open>jobMap\<close>.
  Then \<open>startNewPhase\<close> emits \<open>ready\<close> to exactly the first \<open>min c n\<close> of the \<open>n\<close>
  active jobs, in the order of the snapshot, makes \<open>queuedJobs\<close> the remaining active
  jobs and \<open>phasePendingJobs\<close> all active jobs, and leaves \<open>jobs\<close> as it is.
\<close>

theorem startNewPhase_cap:
  assumes c: "0 \<le> concurrency s"
    and d: "distinct (jobs s)"
    and v: "set (jobs s) \<subseteq> {..<length (jobMap s)}"
  shows "emitted (startNewPhase s) = emitted s @ map Ready (take (nat (concurrency s)) (jobs s))
       \<and> length (take (nat (concurrency s)) (jobs s)) = min (nat (concurrency s)) (length (jobs s))
       \<and> queuedJobs (startNewPhase s) = drop (nat (concurrency s)) (jobs s)
       \<and> phasePendingJobs (startNewPhase s) = jobs s
       \<and> jobs (startNewPhase s) = jobs s"
proof -
  have k: "take (cap s) (jobs s) = take (nat (concurrency s)) (jobs s)"
          "drop (cap s) (jobs s) = drop (nat (concurrency s)) (jobs s)"
    using c by (simp_all add: cap_def rel_index_nonneg min_def)
  have "filter (\<lambda>i. i < length (jobMap s)) (take (cap s) (jobs s)) = take (cap s) (jobs s)"
    using v by (auto simp add: filter_id_conv dest: in_set_takeD)
  then have e: "emitted (startNewPhase s) = emitted s @ map Ready (take (nat (concurrency s)) (jobs s))"
    by (simp add: startNewPhase_emitted k)
  have q: "queuedJobs (startNewPhase s) = drop (nat (concurrency s)) (jobs s)"
    using d by (simp add: startNewPhase_sets k new_Set_distinct)
  have p: "phasePendingJobs (startNewPhase s) = jobs s"
    using d by (simp add: startNewPhase_sets new_Set_distinct)
  show ?thesis using e q p by (simp add: startNewPhase_frame min.commute)
qed

theorem startNewPhase_cap_witness:
  "emitted (startNewPhase three_waiting) = [Ready 0, Ready 1]
   \<and> queuedJobs (startNewPhase three_waiting) = [2]
   \<and> phasePendingJobs (startNewPhase three_waiting) = [0, 1, 2]"
proof -
  have a: "0 \<le> concurrency three_waiting" by (simp add: three_waiting_def)
  have b: "distinct (jobs three_waiting)" by (simp add: three_waiting_def)
  have c: "set (jobs three_waiting) \<subseteq> {..<length (jobMap three_waiting)}" by (simp add: three_waiting_def)
  show ?thesis using startNewPhase_cap [OF a b c] by (simp add: three_waiting_def)
qed

subsection \<open>C4\<close>

theorem capped_initial_start_counterexample:
  "jobPromise (jobMap (run [1, 1, 1] (fst (phaseSyncedSettle plain_jobs 1 no_arrays))) ! 1) = Some (Fulfilled 9)
   \<and> emitted (run [1, 1, 1] (fst (phaseSyncedSettle plain_jobs 1 no_arrays))) = [Ready 0, JobDone 1]"
  by code_simp

text \<open>
  C4 (initial start), as the code has it. The constructor calls every job function at
  once, so a job outside the first cohort may run, and even finish, without any
  \<open>ready\<close>: of two jobs that never call \<open>phase\<close>, under \<open>concurrency = 1\<close>, the
  second settles and \<open>Ready 1\<close> was never emitted. What holds, for every job list and
  every non-negative \<open>concurrency = c\<close>, with \<open>n\<close> the number of jobs:
  \<^item> the initial \<open>startNewPhase\<close> emits \<open>ready\<close> to exactly the first \<open>min c n\<close> jobs,
    in the order of the list, and nothing else has been emitted at that point;
  \<^item> every job function has been called by then: the handle of every job, in the first
    cohort or not, is as its constructor left it (\<open>boot\<close>: a function that starts with
    \<^verbatim>\<open>await ps.phase()\<close> has made that call, its counter is at 1; any other function is
    under way and not suspended), and the jobs of the first cohort have received
    \<open>ready\<close>;
  \<^item> a job can go on at that point exactly if it is in the first cohort or its function
    does not start with \<^verbatim>\<open>await ps.phase()\<close>;
  \<^item> a job whose function starts with \<^verbatim>\<open>await ps.phase()\<close> is suspended there, its
    counter at 1, and does none of its remaining work, whatever the other jobs do, for
    as long as no \<open>ready\<close> has been emitted to it.
\<close>

theorem initial_start:
  assumes c: "0 \<le> c"
  shows "emitted (fst (phaseSyncedSettle jl c st)) = map Ready [0..<min (nat c) (length jl)]
       \<and> (\<forall>i < length jl.
            jobMap (fst (phaseSyncedSettle jl c st)) ! i =
              (if i < min (nat c) (length jl)
               then (boot (fst (jl ! i) (args_seen jl st i)))\<lparr>listening := False\<rparr>
               else boot (fst (jl ! i) (args_seen jl st i)))
            \<and> runnable (fst (phaseSyncedSettle jl c st)) i =
                (i < min (nat c) (length jl)
                 \<or> (\<forall>rest. fst (fst (jl ! i) (args_seen jl st i)) \<noteq> Phase # rest))
            \<and> (\<forall>rest. fst (fst (jl ! i) (args_seen jl st i)) = Phase # rest
                  \<and> Ready i \<notin> set (emitted (run sched (fst (phaseSyncedSettle jl c st)))) \<longrightarrow>
                  jobMap (run sched (fst (phaseSyncedSettle jl c st))) ! i =
                    \<lparr>phaseCntr = 1, listening = True, finallyRan = False, jobPromise = None,
                     todo = rest, outcome = snd (fst (jl ! i) (args_seen jl st i))\<rparr>))"
proof -
  let ?init = "startNewPhase (before_start jl c st)"
  have k: "rel_index c (length jl) = min (nat c) (length jl)"
    using c by (rule rel_index_nonneg)
  have e: "emitted ?init = map Ready [0..<min (nat c) (length jl)]"
    by (simp add: init_emitted k)
  have per: "jobMap ?init ! i =
              (if i < min (nat c) (length jl)
               then (boot (fst (jl ! i) (args_seen jl st i)))\<lparr>listening := False\<rparr>
               else boot (fst (jl ! i) (args_seen jl st i)))
            \<and> runnable ?init i =
                (i < min (nat c) (length jl)
                 \<or> (\<forall>rest. fst (fst (jl ! i) (args_seen jl st i)) \<noteq> Phase # rest))
            \<and> (\<forall>rest. fst (fst (jl ! i) (args_seen jl st i)) = Phase # rest
                  \<and> Ready i \<notin> set (emitted (run sched ?init)) \<longrightarrow>
                  jobMap (run sched ?init) ! i =
                    \<lparr>phaseCntr = 1, listening = True, finallyRan = False, jobPromise = None,
                     todo = rest, outcome = snd (fst (jl ! i) (args_seen jl st i))\<rparr>)"
    if i: "i < length jl" for i
  proof (intro conjI allI impI)
    show n: "jobMap ?init ! i =
              (if i < min (nat c) (length jl)
               then (boot (fst (jl ! i) (args_seen jl st i)))\<lparr>listening := False\<rparr>
               else boot (fst (jl ! i) (args_seen jl st i)))"
      using i by (simp add: init_nth k)
    show "runnable ?init i =
                (i < min (nat c) (length jl)
                 \<or> (\<forall>rest. fst (fst (jl ! i) (args_seen jl st i)) \<noteq> Phase # rest))"
      using i by (auto simp add: runnable_def init_frame n boot_fields boot_runnable)
  next
    fix rest
    assume a: "fst (fst (jl ! i) (args_seen jl st i)) = Phase # rest
               \<and> Ready i \<notin> set (emitted (run sched ?init))"
    then have "Ready i \<notin> set (emitted ?init)"
      using run_trace_mono [of ?init sched] by auto
    then have "\<not> i < rel_index c (length jl)"
      using i by (auto simp add: init_emitted)
    with i a have j: "jobMap ?init ! i =
           \<lparr>phaseCntr = 1, listening = True, finallyRan = False, jobPromise = None, todo = rest,
            outcome = snd (fst (jl ! i) (args_seen jl st i))\<rparr>"
      by (simp add: init_nth boot_def)
    have "jobMap (run sched ?init) ! i = jobMap ?init ! i"
      using i j a by (intro run_suspended) (simp_all add: init_frame)
    with j show "jobMap (run sched ?init) ! i =
                    \<lparr>phaseCntr = 1, listening = True, finallyRan = False, jobPromise = None,
                     todo = rest, outcome = snd (fst (jl ! i) (args_seen jl st i))\<rparr>"
      by simp
  qed
  show ?thesis using e per by (simp add: phaseSyncedSettle_eq)
qed

theorem initial_start_witness:
  "emitted (fst (phaseSyncedSettle mixed_jobs 1 no_arrays)) = [Ready 0]
   \<and> runnable (fst (phaseSyncedSettle mixed_jobs 1 no_arrays)) 0
   \<and> runnable (fst (phaseSyncedSettle mixed_jobs 1 no_arrays)) 1
   \<and> \<not> runnable (fst (phaseSyncedSettle mixed_jobs 1 no_arrays)) 2
   \<and> emitted (run [1] (fst (phaseSyncedSettle mixed_jobs 1 no_arrays))) = [Ready 0]
   \<and> jobMap (run [1] (fst (phaseSyncedSettle mixed_jobs 1 no_arrays))) ! 2 =
       \<lparr>phaseCntr = 1, listening = True, finallyRan = False, jobPromise = None,
        todo = [Phase], outcome = Rejected 3\<rparr>"
proof -
  have c: "(0::int) \<le> 1" by simp
  have len: "length mixed_jobs = 3" by (simp add: mixed_jobs_def)
  have b0: "fst (mixed_jobs ! 0) (args_seen mixed_jobs no_arrays 0) = ([Phase, Phase], Fulfilled 7)"
    by (simp add: mixed_jobs_def two_phase_job_def)
  have b1: "fst (mixed_jobs ! 1) (args_seen mixed_jobs no_arrays 1) = ([Await], Fulfilled 9)"
    by (simp add: mixed_jobs_def plain_job_def)
  have b2: "fst (mixed_jobs ! 2) (args_seen mixed_jobs no_arrays 2) = ([Phase, Phase], Rejected 3)"
    by (simp add: mixed_jobs_def failing_job_def)
  have e: "emitted (run [1] (fst (phaseSyncedSettle mixed_jobs 1 no_arrays))) = [Ready 0]"
    by code_simp
  note w = initial_start [OF c, of mixed_jobs no_arrays "[1]"]
  have i0: "0 < length mixed_jobs" and i1: "1 < length mixed_jobs" and i2: "2 < length mixed_jobs"
    by (simp_all add: len)
  have w0: "emitted (fst (phaseSyncedSettle mixed_jobs 1 no_arrays)) = [Ready 0]"
    using conjunct1 [OF w] by (simp add: len)
  have "runnable (fst (phaseSyncedSettle mixed_jobs 1 no_arrays)) 0 =
          (0 < min (nat 1) (length mixed_jobs)
           \<or> (\<forall>rest. fst (fst (mixed_jobs ! 0) (args_seen mixed_jobs no_arrays 0)) \<noteq> Phase # rest))"
    using conjunct2 [OF w] i0 by blast
  then have r0: "runnable (fst (phaseSyncedSettle mixed_jobs 1 no_arrays)) 0"
    by (simp add: len)
  have "runnable (fst (phaseSyncedSettle mixed_jobs 1 no_arrays)) 1 =
          (1 < min (nat 1) (length mixed_jobs)
           \<or> (\<forall>rest. fst (fst (mixed_jobs ! 1) (args_seen mixed_jobs no_arrays 1)) \<noteq> Phase # rest))"
    using conjunct2 [OF w] i1 by blast
  then have r1: "runnable (fst (phaseSyncedSettle mixed_jobs 1 no_arrays)) 1"
    unfolding b1 len by simp
  have "runnable (fst (phaseSyncedSettle mixed_jobs 1 no_arrays)) 2 =
          (2 < min (nat 1) (length mixed_jobs)
           \<or> (\<forall>rest. fst (fst (mixed_jobs ! 2) (args_seen mixed_jobs no_arrays 2)) \<noteq> Phase # rest))"
    using conjunct2 [OF w] i2 by blast
  then have r2: "\<not> runnable (fst (phaseSyncedSettle mixed_jobs 1 no_arrays)) 2"
    by (simp add: len b2)
  have h: "fst (fst (mixed_jobs ! 2) (args_seen mixed_jobs no_arrays 2)) = Phase # [Phase]
        \<and> Ready 2 \<notin> set (emitted (run [1] (fst (phaseSyncedSettle mixed_jobs 1 no_arrays))))"
    unfolding b2 e by simp
  have "\<forall>rest. fst (fst (mixed_jobs ! 2) (args_seen mixed_jobs no_arrays 2)) = Phase # rest
          \<and> Ready 2 \<notin> set (emitted (run [1] (fst (phaseSyncedSettle mixed_jobs 1 no_arrays)))) \<longrightarrow>
          jobMap (run [1] (fst (phaseSyncedSettle mixed_jobs 1 no_arrays))) ! 2 =
            \<lparr>phaseCntr = 1, listening = True, finallyRan = False, jobPromise = None,
             todo = rest, outcome = snd (fst (mixed_jobs ! 2) (args_seen mixed_jobs no_arrays 2))\<rparr>"
    using conjunct2 [OF w] i2 by blast
  with h have j2: "jobMap (run [1] (fst (phaseSyncedSettle mixed_jobs 1 no_arrays))) ! 2 =
       \<lparr>phaseCntr = 1, listening = True, finallyRan = False, jobPromise = None,
        todo = [Phase], outcome = snd (fst (mixed_jobs ! 2) (args_seen mixed_jobs no_arrays 2))\<rparr>"
    by blast
  show ?thesis using w0 r0 r1 r2 e j2 by (simp add: b2)
qed

subsection \<open>C5\<close>

text \<open>
  C5 (contract of the phase-boundary operation). A call of \<open>phase\<close> on an existing
  handle \<open>i\<close> whose counter is \<open>c\<close>
  \<^item> leaves the counter at \<open>c + 1\<close>;
  \<^item> emits \<open>stepDone i c\<close> exactly when \<open>0 < c\<close>, once, and nothing else but the
    \<open>ready\<close> signals \<open>rs\<close> with which the coordinator answers that notification;
  \<^item> has attached the listener before the notification: when the answer holds a
    \<open>ready\<close> for \<open>i\<close> itself the signal is received and the caller is not
    suspended, and otherwise the caller is suspended until a later \<open>ready\<close>.
\<close>

theorem phase_contract:
  assumes i: "i < length (jobMap s)"
  shows "phaseCntr (jobMap (phase i s) ! i) = phaseCntr (jobMap s ! i) + 1
       \<and> (\<exists>rs. emitted (phase i s) =
                 emitted s @ (if 0 < phaseCntr (jobMap s ! i) then [StepDone i (phaseCntr (jobMap s ! i))] else [])
                   @ map Ready rs
               \<and> listening (jobMap (phase i s) ! i) = (i \<notin> set rs))"
proof (cases "0 < phaseCntr (jobMap s ! i)")
  case False
  then have z: "phaseCntr (jobMap s ! i) = 0" by simp
  have "emitted (phase i s) = emitted s @ [] @ map Ready []"
    by (simp add: phase_zero [OF i z])
  moreover have "listening (jobMap (phase i s) ! i)" "phaseCntr (jobMap (phase i s) ! i) = 1"
    using i by (simp_all add: phase_zero [OF i z])
  ultimately show ?thesis using z by auto
next
  case True
  let ?a = "announce i s"
  let ?rs = "filter (\<lambda>k. k < length (jobMap ?a)) (woken ?a)"
  have la: "length (jobMap ?a) = length (jobMap s)" by (simp add: announce_def)
  have e: "emitted (phase i s) = emitted s @ [StepDone i (phaseCntr (jobMap s ! i))] @ map Ready ?rs"
    by (simp add: phase_pos [OF i True] Let_def advance_emitted) (simp add: announce_def)
  have l: "listening (jobMap (phase i s) ! i) = (i \<notin> set ?rs)"
    using i by (simp add: phase_pos [OF i True] Let_def advance_frame advance_nth la) (simp add: announce_def)
  have c: "phaseCntr (jobMap (phase i s) ! i) = phaseCntr (jobMap s ! i) + 1"
    using i by (simp add: phase_pos [OF i True] Let_def advance_frame la)
  show ?thesis using e l c True by auto
qed

theorem phase_contract_witness:
  "0 < length (jobMap three_waiting)
   \<and> phaseCntr (jobMap (phase 0 three_waiting) ! 0) = 2
   \<and> emitted (phase 0 three_waiting) = [StepDone 0 1, Ready 0, Ready 1]
   \<and> listening (jobMap (phase 0 three_waiting) ! 0) = False"
proof -
  have h: "0 < length (jobMap three_waiting)" by (simp add: three_waiting_def)
  have c: "phaseCntr (jobMap three_waiting ! 0) = 1" by (simp add: three_waiting_def)
  have e: "emitted (phase 0 three_waiting) = [StepDone 0 1, Ready 0, Ready 1]"
    by code_simp
  from phase_contract [OF h] obtain rs where
    n: "phaseCntr (jobMap (phase 0 three_waiting) ! 0) = phaseCntr (jobMap three_waiting ! 0) + 1"
    and r: "emitted (phase 0 three_waiting) =
            emitted three_waiting @ (if 0 < phaseCntr (jobMap three_waiting ! 0)
              then [StepDone 0 (phaseCntr (jobMap three_waiting ! 0))] else []) @ map Ready rs"
    and l: "listening (jobMap (phase 0 three_waiting) ! 0) = (0 \<notin> set rs)"
    by blast
  from r e c have "map Ready rs = [Ready 0, Ready 1]" by (simp add: three_waiting_def)
  then have "rs = [0, 1]" by (auto simp add: map_eq_Cons_conv)
  with l have "listening (jobMap (phase 0 three_waiting) ! 0) = False" by simp
  with h n c e show ?thesis by simp
qed

subsection \<open>C6\<close>

text \<open>
  C6 (exactly one termination notification). At every point of every run, for every
  job \<open>i\<close> of the job list, whatever its function does and however it ends (the
  outcome, fulfilled or rejected, is arbitrary):
  \<^item> \<open>jobDone i\<close> has been emitted exactly once if the \<^verbatim>\<open>pFinally\<close> callback of the
    job has run, and not at all if it has not;
  \<^item> it has been emitted only if the function has come to its end: no piece of it is
    left and it is not suspended at a boundary, however many boundaries it crossed;
  \<^item> when the function has come to its end, the next turn of the job leaves exactly one
    \<open>jobDone i\<close> in the trace: the callback emits it if it has not run yet, and
    nothing emits it again;
  \<^item> \<open>jobPromise\<close>, the promise that \<^verbatim>\<open>pFinally\<close> returns, settles in a later turn than
    the callback: when it has settled, exactly one \<open>jobDone i\<close> has been emitted.
\<close>

theorem jobDone_exactly_once:
  assumes "i < length jl"
  shows "count_list (emitted (run sched (fst (phaseSyncedSettle jl c st)))) (JobDone i) =
           (if finallyRan (jobMap (run sched (fst (phaseSyncedSettle jl c st))) ! i) then 1 else 0)
       \<and> (JobDone i \<in> set (emitted (run sched (fst (phaseSyncedSettle jl c st)))) \<longrightarrow>
            todo (jobMap (run sched (fst (phaseSyncedSettle jl c st))) ! i) = []
            \<and> \<not> listening (jobMap (run sched (fst (phaseSyncedSettle jl c st))) ! i))
       \<and> (todo (jobMap (run sched (fst (phaseSyncedSettle jl c st))) ! i) = []
            \<and> \<not> listening (jobMap (run sched (fst (phaseSyncedSettle jl c st))) ! i) \<longrightarrow>
            count_list (emitted (job_step i (run sched (fst (phaseSyncedSettle jl c st))))) (JobDone i) = 1)
       \<and> (jobPromise (jobMap (run sched (fst (phaseSyncedSettle jl c st))) ! i) \<noteq> None \<longrightarrow>
            count_list (emitted (run sched (fst (phaseSyncedSettle jl c st)))) (JobDone i) = 1)"
proof -
  let ?fin = "run sched (startNewPhase (before_start jl c st))"
  have once: "callback_once ?fin"
    by (rule callback_once_run) (rule callback_once_init)
  have i: "i < length (jobMap ?fin)" using assms by (simp add: run_length init_frame)
  have a: "count_list (emitted ?fin) (JobDone i) = (if finallyRan (jobMap ?fin ! i) then 1 else 0)"
    using once i by (simp add: callback_once_def)
  have b: "JobDone i \<in> set (emitted ?fin) \<longrightarrow> todo (jobMap ?fin ! i) = [] \<and> \<not> listening (jobMap ?fin ! i)"
  proof
    assume "JobDone i \<in> set (emitted ?fin)"
    then have "count_list (emitted ?fin) (JobDone i) \<noteq> 0" by (simp add: count_list_0_iff)
    with a have "finallyRan (jobMap ?fin ! i)" by (simp split: if_splits)
    then show "todo (jobMap ?fin ! i) = [] \<and> \<not> listening (jobMap ?fin ! i)"
      using once i by (simp add: callback_once_def)
  qed
  have d: "jobPromise (jobMap ?fin ! i) \<noteq> None \<longrightarrow> count_list (emitted ?fin) (JobDone i) = 1"
    using once i a by (simp add: callback_once_def)
  have e: "todo (jobMap ?fin ! i) = [] \<and> \<not> listening (jobMap ?fin ! i) \<longrightarrow>
            count_list (emitted (job_step i ?fin)) (JobDone i) = 1"
  proof
    assume f: "todo (jobMap ?fin ! i) = [] \<and> \<not> listening (jobMap ?fin ! i)"
    show "count_list (emitted (job_step i ?fin)) (JobDone i) = 1"
    proof (cases "finallyRan (jobMap ?fin ! i)")
      case True
      with a show ?thesis by (simp add: job_step_count_JobDone)
    next
      case False
      then have "jobPromise (jobMap ?fin ! i) = None"
        using once i by (auto simp add: callback_once_def)
      with f i have "runnable ?fin i" by (simp add: runnable_def)
      with a f False show ?thesis by (simp add: job_step_count_JobDone)
    qed
  qed
  show ?thesis using a b d e by (simp add: phaseSyncedSettle_eq)
qed

theorem jobDone_exactly_once_witness:
  "2 < length demo_jobs
   \<and> count_list (emitted (run [0, 1, 2, 0] (fst (phaseSyncedSettle demo_jobs 2 no_arrays)))) (JobDone 0) = 1
   \<and> finallyRan (jobMap (run [0, 1, 2, 0] (fst (phaseSyncedSettle demo_jobs 2 no_arrays))) ! 0)
   \<and> jobPromise (jobMap (run [0, 1, 2, 0] (fst (phaseSyncedSettle demo_jobs 2 no_arrays))) ! 0) = None
   \<and> todo (jobMap (run [0, 1, 2, 0] (fst (phaseSyncedSettle demo_jobs 2 no_arrays))) ! 0) = []
   \<and> count_list (emitted (run [0, 1, 2, 0] (fst (phaseSyncedSettle demo_jobs 2 no_arrays)))) (JobDone 2) = 0
   \<and> jobPromise (jobMap (run demo_schedule (fst (phaseSyncedSettle demo_jobs 2 no_arrays))) ! 2) = Some (Rejected 3)
   \<and> count_list (emitted (run demo_schedule (fst (phaseSyncedSettle demo_jobs 2 no_arrays)))) (JobDone 2) = 1"
proof -
  have h0: "0 < length demo_jobs" and h2: "2 < length demo_jobs" by (simp_all add: demo_jobs_def)
  have f0: "finallyRan (jobMap (run [0, 1, 2, 0] (fst (phaseSyncedSettle demo_jobs 2 no_arrays))) ! 0)"
    by code_simp
  have p0: "jobPromise (jobMap (run [0, 1, 2, 0] (fst (phaseSyncedSettle demo_jobs 2 no_arrays))) ! 0) = None"
    by code_simp
  have f2: "\<not> finallyRan (jobMap (run [0, 1, 2, 0] (fst (phaseSyncedSettle demo_jobs 2 no_arrays))) ! 2)"
    by code_simp
  have p2: "jobPromise (jobMap (run demo_schedule (fst (phaseSyncedSettle demo_jobs 2 no_arrays))) ! 2) = Some (Rejected 3)"
    by code_simp
  have t0: "todo (jobMap (run [0, 1, 2, 0] (fst (phaseSyncedSettle demo_jobs 2 no_arrays))) ! 0) = []"
    by code_simp
  have a: "count_list (emitted (run [0, 1, 2, 0] (fst (phaseSyncedSettle demo_jobs 2 no_arrays)))) (JobDone 0) = 1"
    using conjunct1 [OF jobDone_exactly_once [OF h0, of "[0, 1, 2, 0]" 2 no_arrays]] f0 by simp
  have b: "count_list (emitted (run [0, 1, 2, 0] (fst (phaseSyncedSettle demo_jobs 2 no_arrays)))) (JobDone 2) = 0"
    using conjunct1 [OF jobDone_exactly_once [OF h2, of "[0, 1, 2, 0]" 2 no_arrays]] f2 by simp
  have "jobPromise (jobMap (run demo_schedule (fst (phaseSyncedSettle demo_jobs 2 no_arrays))) ! 2) \<noteq> None \<longrightarrow>
        count_list (emitted (run demo_schedule (fst (phaseSyncedSettle demo_jobs 2 no_arrays)))) (JobDone 2) = 1"
    using jobDone_exactly_once [OF h2, of demo_schedule 2 no_arrays] by blast
  then have d: "count_list (emitted (run demo_schedule (fst (phaseSyncedSettle demo_jobs 2 no_arrays)))) (JobDone 2) = 1"
    using p2 by simp
  show ?thesis using h2 a f0 p0 t0 b p2 d by simp
qed

subsection \<open>C7\<close>

theorem failure_isolation_counterexample:
  "jobPromise (jobMap (run [0, 0, 1, 1] (fst (phaseSyncedSettle stuck_jobs 1 no_arrays))) ! 0) = Some (Rejected 3)
   \<and> jobPromise (jobMap (run [0, 0, 1, 1] (fst (phaseSyncedSettle stuck_jobs 1 no_arrays))) ! 1) = None
   \<and> todo (jobMap (run [0, 0, 1, 1] (fst (phaseSyncedSettle stuck_jobs 1 no_arrays))) ! 1) = []
   \<and> listening (jobMap (run [0, 0, 1, 1] (fst (phaseSyncedSettle stuck_jobs 1 no_arrays))) ! 1)
   \<and> emitted (run [0, 0, 1, 1] (fst (phaseSyncedSettle stuck_jobs 1 no_arrays))) = [Ready 0, JobDone 0, Ready 1]
   \<and> job_step 0 (run [0, 0, 1, 1] (fst (phaseSyncedSettle stuck_jobs 1 no_arrays)))
       = run [0, 0, 1, 1] (fst (phaseSyncedSettle stuck_jobs 1 no_arrays))
   \<and> job_step 1 (run [0, 0, 1, 1] (fst (phaseSyncedSettle stuck_jobs 1 no_arrays)))
       = run [0, 0, 1, 1] (fst (phaseSyncedSettle stuck_jobs 1 no_arrays))
   \<and> aggregate (run [0, 0, 1, 1] (fst (phaseSyncedSettle stuck_jobs 1 no_arrays))) = None
   \<and> aggregate (run [1, 1, 0, 0, 1, 1] (fst (phaseSyncedSettle stuck_jobs 1 no_arrays)))
       = Some [Rejected 3, Fulfilled 9]"
proof -
  let ?s = "run [0, 0, 1, 1] (fst (phaseSyncedSettle stuck_jobs 1 no_arrays))"
  have p0: "jobPromise (jobMap ?s ! 0) = Some (Rejected 3)" by code_simp
  have p1: "jobPromise (jobMap ?s ! 1) = None" by code_simp
  have t1: "todo (jobMap ?s ! 1) = []" by code_simp
  have l1: "listening (jobMap ?s ! 1)" by code_simp
  have e: "emitted ?s = [Ready 0, JobDone 0, Ready 1]" by code_simp
  have s0: "job_step 0 ?s = ?s" using p0 by (simp add: job_step_idle runnable_def)
  have s1: "job_step 1 ?s = ?s" using l1 by (simp add: job_step_idle runnable_def)
  have a: "aggregate ?s = None" by code_simp
  have b: "aggregate (run [1, 1, 0, 0, 1, 1] (fst (phaseSyncedSettle stuck_jobs 1 no_arrays)))
       = Some [Rejected 3, Fulfilled 9]" by code_simp
  show ?thesis using p0 p1 t1 l1 e s0 s1 a b by simp
qed

text \<open>
  C7 (failure isolation), as the code has it. A job can be blocked for ever after a
  rejection: a \<open>ready\<close> emitted to a job that has not reached its first call of
  \<open>phase\<close> is lost. With a job that rejects at once and a job that awaits something
  else before its first boundary, under \<open>concurrency = 1\<close>, the turns \<open>0, 0, 1, 1\<close>
  leave the second job suspended with no further event to come, its promise and the
  aggregate pending, while the turns \<open>1, 1, 0, 0, 1, 1\<close> settle both. What holds, at
  every point \<open>s\<close> of every run, for every job list and \<open>concurrency = c\<close>:
  \<^item> the way job functions end has no effect on anything else: a job list \<open>jl'\<close> with
    the same argument arrays and the same suspension points, whose functions end in any
    other way (reject where they fulfilled, other values), gives under the same schedule
    the same state but for the values and reasons of the outcomes (\<open>forget\<close>): the same
    events in the same order, the same three sets, every job as far in its function;
  \<^item> the coordinator has not thrown;
  \<^item> the identities in \<open>jobs\<close>, \<open>queuedJobs\<close> and \<open>phasePendingJobs\<close> together are
    exactly the jobs for which no \<open>jobDone\<close> has been emitted;
  \<^item> the turn in which the \<^verbatim>\<open>pFinally\<close> callback of job \<open>k\<close> runs, after a fulfilment
    or a rejection alike, removes \<open>k\<close> from \<open>jobs\<close> and emits \<open>jobDone k\<close> followed by
    the release that the freed slot allows: \<open>ready\<close> to the first \<open>c\<close> of the
    remaining jobs (by \<^verbatim>\<open>slice(0, c)\<close>) when no other job is pending in the phase, a
    new phase, and else \<open>ready\<close> to the first queued job, if there is one;
  \<^item> the aggregate is pending exactly as long as \<open>work s\<close>, the number of turns left
    to the jobs, is not 0, and is then resolved to the outcomes of all jobs, fulfilled
    or rejected, in the order of the job list; it has no other state;
  \<^item> a turn of a job that can go on brings \<open>work\<close> down by one, and a turn of any other
    job changes nothing;
  \<^item> if \<open>1 \<le> c\<close> and every job function either starts with \<^verbatim>\<open>await ps.phase()\<close> or
    never calls \<open>phase\<close>, then the run is never stuck: as long as a turn is left some
    job can go on, so that the run can be continued from \<open>s\<close> to the point at which all
    jobs have settled and the aggregate has resolved to all the outcomes, the rejections
    among them.
\<close>

theorem failure_isolation:
  "(map snd jl' = map snd jl
      \<and> (\<forall>k < length jl. \<forall>xs. fst (fst (jl' ! k) xs) = fst (fst (jl ! k) xs)) \<longrightarrow>
      forget (run sched (fst (phaseSyncedSettle jl' c st)))
        = forget (run sched (fst (phaseSyncedSettle jl c st))))
   \<and> \<not> crashed (run sched (fst (phaseSyncedSettle jl c st)))
   \<and> set (jobs (run sched (fst (phaseSyncedSettle jl c st))))
       \<union> set (queuedJobs (run sched (fst (phaseSyncedSettle jl c st))))
       \<union> set (phasePendingJobs (run sched (fst (phaseSyncedSettle jl c st))))
       = {k. k < length jl \<and> JobDone k \<notin> set (emitted (run sched (fst (phaseSyncedSettle jl c st))))}
   \<and> (\<forall>k. runnable (run sched (fst (phaseSyncedSettle jl c st))) k
          \<and> todo (jobMap (run sched (fst (phaseSyncedSettle jl c st))) ! k) = []
          \<and> \<not> finallyRan (jobMap (run sched (fst (phaseSyncedSettle jl c st))) ! k) \<longrightarrow>
          jobs (job_step k (run sched (fst (phaseSyncedSettle jl c st))))
            = removeAll k (jobs (run sched (fst (phaseSyncedSettle jl c st))))
          \<and> emitted (job_step k (run sched (fst (phaseSyncedSettle jl c st)))) =
              emitted (run sched (fst (phaseSyncedSettle jl c st))) @ JobDone k # map Ready
                (if removeAll k (phasePendingJobs (run sched (fst (phaseSyncedSettle jl c st)))) = []
                 then take (rel_index c (length (removeAll k (jobs (run sched (fst (phaseSyncedSettle jl c st)))))))
                        (removeAll k (jobs (run sched (fst (phaseSyncedSettle jl c st)))))
                 else take 1 (removeAll k (queuedJobs (run sched (fst (phaseSyncedSettle jl c st)))))))
   \<and> aggregate (run sched (fst (phaseSyncedSettle jl c st))) =
       (if work (run sched (fst (phaseSyncedSettle jl c st))) = 0
        then Some (map (\<lambda>i. snd (fst (jl ! i) (args_seen jl st i))) [0..<length jl]) else None)
   \<and> (\<forall>k. if runnable (run sched (fst (phaseSyncedSettle jl c st))) k
           then Suc (work (job_step k (run sched (fst (phaseSyncedSettle jl c st)))))
                  = work (run sched (fst (phaseSyncedSettle jl c st)))
           else job_step k (run sched (fst (phaseSyncedSettle jl c st)))
                  = run sched (fst (phaseSyncedSettle jl c st)))
   \<and> (1 \<le> c \<and> (\<forall>k < length jl. protocol_start (fst (fst (jl ! k) (args_seen jl st k)))) \<longrightarrow>
        (0 < work (run sched (fst (phaseSyncedSettle jl c st))) \<longrightarrow>
           (\<exists>k < length jl. runnable (run sched (fst (phaseSyncedSettle jl c st))) k))
        \<and> (\<exists>more. aggregate (run (sched @ more) (fst (phaseSyncedSettle jl c st)))
                     = Some (map (\<lambda>i. snd (fst (jl ! i) (args_seen jl st i))) [0..<length jl])))"
proof -
  let ?init = "startNewPhase (before_start jl c st)"
  let ?fin = "run sched ?init"
  let ?out = "map (\<lambda>i. snd (fst (jl ! i) (args_seen jl st i))) [0..<length jl]"
  obtain g where l: "lockstep g ?fin"
    using lockstep_run [OF lockstep_init] by blast
  have cb: "callback_once ?fin" by (rule callback_once_run [OF callback_once_init])
  have pk: "promise_kept ?fin" by (rule promise_kept_run [OF promise_kept_init])
  have len: "length (jobMap ?fin) = length jl" by (simp add: run_length init_frame)
  have cc: "concurrency ?fin = c" by (simp add: run_concurrency init_frame)
  have c1: "map snd jl' = map snd jl
      \<and> (\<forall>k < length jl. \<forall>xs. fst (fst (jl' ! k) xs) = fst (fst (jl ! k) xs)) \<longrightarrow>
      forget (run sched (startNewPhase (before_start jl' c st))) = forget ?fin"
  proof
    assume h: "map snd jl' = map snd jl
      \<and> (\<forall>k < length jl. \<forall>xs. fst (fst (jl' ! k) xs) = fst (fst (jl ! k) xs))"
    from h have m: "map snd jl' = map snd jl" by (rule conjunct1)
    from h have a: "\<forall>k < length jl. \<forall>xs. fst (fst (jl' ! k) xs) = fst (fst (jl ! k) xs)"
      by (rule conjunct2)
    show "forget (run sched (startNewPhase (before_start jl' c st))) = forget ?fin"
      by (simp only: forget_run forget_startNewPhase forget_before_start [OF m a])
  qed
  have c2: "\<not> crashed ?fin" using l by (simp add: lockstep_def)
  have jd: "\<forall>k < length jl. (JobDone k \<notin> set (emitted ?fin)) = (\<not> finallyRan (jobMap ?fin ! k))"
  proof (intro allI impI)
    fix k assume k: "k < length jl"
    have "(JobDone k \<notin> set (emitted ?fin)) = (count_list (emitted ?fin) (JobDone k) = 0)"
      by (simp add: count_list_0_iff)
    also have "\<dots> = (\<not> finallyRan (jobMap ?fin ! k))"
      using cb k len by (simp add: callback_once_def)
    finally show "(JobDone k \<notin> set (emitted ?fin)) = (\<not> finallyRan (jobMap ?fin ! k))" .
  qed
  have js: "set (jobs ?fin) = {k. k < length jl \<and> JobDone k \<notin> set (emitted ?fin)}"
    using l len jd by (auto simp add: lockstep_def)
  have c3: "set (jobs ?fin) \<union> set (queuedJobs ?fin) \<union> set (phasePendingJobs ?fin)
       = {k. k < length jl \<and> JobDone k \<notin> set (emitted ?fin)}"
    using lockstep_sets(2,3) [OF l] unfolding js [symmetric] by blast
  have c4: "\<forall>k. runnable ?fin k \<and> todo (jobMap ?fin ! k) = [] \<and> \<not> finallyRan (jobMap ?fin ! k) \<longrightarrow>
          jobs (job_step k ?fin) = removeAll k (jobs ?fin)
          \<and> emitted (job_step k ?fin) =
              emitted ?fin @ JobDone k # map Ready
                (if removeAll k (phasePendingJobs ?fin) = []
                 then take (rel_index c (length (removeAll k (jobs ?fin)))) (removeAll k (jobs ?fin))
                 else take 1 (removeAll k (queuedJobs ?fin)))"
  proof (intro allI impI, elim conjE)
    fix k assume r: "runnable ?fin k" and t: "todo (jobMap ?fin ! k) = []"
      and f: "\<not> finallyRan (jobMap ?fin ! k)"
    show "jobs (job_step k ?fin) = removeAll k (jobs ?fin)
          \<and> emitted (job_step k ?fin) =
              emitted ?fin @ JobDone k # map Ready
                (if removeAll k (phasePendingJobs ?fin) = []
                 then take (rel_index c (length (removeAll k (jobs ?fin)))) (removeAll k (jobs ?fin))
                 else take 1 (removeAll k (queuedJobs ?fin)))"
      using callback_turn [OF l r t f] unfolding cc by (rule conjI)
  qed
  have c5: "aggregate ?fin = (if work ?fin = 0 then Some ?out else None)"
    unfolding aggregate_work [OF cb pk] run_outcomes ..
  have c6: "\<forall>k. if runnable ?fin k then Suc (work (job_step k ?fin)) = work ?fin
                 else job_step k ?fin = ?fin"
    by (simp add: work_step job_step_idle)
  have c7: "1 \<le> c \<and> (\<forall>k < length jl. protocol_start (fst (fst (jl ! k) (args_seen jl st k)))) \<longrightarrow>
        (0 < work ?fin \<longrightarrow> (\<exists>k < length jl. runnable ?fin k))
        \<and> (\<exists>more. aggregate (run (sched @ more) ?init) = Some ?out)"
  proof
    assume h: "1 \<le> c \<and> (\<forall>k < length jl. protocol_start (fst (fst (jl ! k) (args_seen jl st k))))"
    from h have c: "1 \<le> c" by (rule conjunct1)
    from h have ps: "\<forall>k < length jl. protocol_start (fst (fst (jl ! k) (args_seen jl st k)))"
      by (rule conjunct2)
    have o: "orderly ?fin" by (rule orderly_run [OF c ps])
    have p: "0 < work ?fin \<longrightarrow> (\<exists>k < length jl. runnable ?fin k)"
    proof
      assume w: "0 < work ?fin"
      have "\<not> (\<forall>k < length (jobMap ?fin). jobPromise (jobMap ?fin ! k) \<noteq> None)"
      proof
        assume "\<forall>k < length (jobMap ?fin). jobPromise (jobMap ?fin ! k) \<noteq> None"
        from settled_no_work [OF cb this] w show False by simp
      qed
      then obtain k where k: "k < length (jobMap ?fin)" and n: "jobPromise (jobMap ?fin ! k) = None"
        by blast
      from progress [OF l cb o k n] show "\<exists>k < length jl. runnable ?fin k" unfolding len .
    qed
    obtain more where m: "work (run (sched @ more) ?init) = 0"
      using reach_end [OF c ps] by blast
    have "aggregate (run (sched @ more) ?init) = Some ?out"
      unfolding aggregate_work [OF callback_once_run [OF callback_once_init] promise_kept_run [OF promise_kept_init]]
        run_outcomes using m by simp
    then have e: "\<exists>more. aggregate (run (sched @ more) ?init) = Some ?out" by blast
    from p e show "(0 < work ?fin \<longrightarrow> (\<exists>k < length jl. runnable ?fin k))
        \<and> (\<exists>more. aggregate (run (sched @ more) ?init) = Some ?out)" by (rule conjI)
  qed
  show ?thesis
    unfolding phaseSyncedSettle_eq fst_conv
    using c1 c2 c3 c4 c5 c6 c7 by (intro conjI)
qed

theorem failure_isolation_witness:
  "map snd calm_jobs = map snd demo_jobs
   \<and> forget (run [0, 1, 2, 2] (fst (phaseSyncedSettle calm_jobs 2 no_arrays)))
       = forget (run [0, 1, 2, 2] (fst (phaseSyncedSettle demo_jobs 2 no_arrays)))
   \<and> runnable (run [0, 1, 2, 2] (fst (phaseSyncedSettle demo_jobs 2 no_arrays))) 0
   \<and> todo (jobMap (run [0, 1, 2, 2] (fst (phaseSyncedSettle demo_jobs 2 no_arrays))) ! 0) = []
   \<and> queuedJobs (run [0, 1, 2, 2] (fst (phaseSyncedSettle demo_jobs 2 no_arrays))) = [2]
   \<and> jobs (job_step 0 (run [0, 1, 2, 2] (fst (phaseSyncedSettle demo_jobs 2 no_arrays)))) = [1, 2]
   \<and> emitted (job_step 0 (run [0, 1, 2, 2] (fst (phaseSyncedSettle demo_jobs 2 no_arrays))))
       = emitted (run [0, 1, 2, 2] (fst (phaseSyncedSettle demo_jobs 2 no_arrays))) @ [JobDone 0, Ready 2]
   \<and> work (run [0, 1, 2, 2] (fst (phaseSyncedSettle demo_jobs 2 no_arrays))) = 6
   \<and> work (job_step 0 (run [0, 1, 2, 2] (fst (phaseSyncedSettle demo_jobs 2 no_arrays)))) = 5
   \<and> aggregate (run [0, 1, 2, 2] (fst (phaseSyncedSettle demo_jobs 2 no_arrays))) = None
   \<and> (\<exists>k < length demo_jobs. runnable (run [0, 1, 2, 2] (fst (phaseSyncedSettle demo_jobs 2 no_arrays))) k)
   \<and> (\<exists>more. aggregate (run ([0, 1, 2, 2] @ more) (fst (phaseSyncedSettle demo_jobs 2 no_arrays)))
                = Some [Fulfilled 7, Fulfilled 7, Rejected 3])"
proof -
  let ?s = "run [0, 1, 2, 2] (fst (phaseSyncedSettle demo_jobs 2 no_arrays))"
  note th = failure_isolation [where jl' = calm_jobs and jl = demo_jobs and sched = "[0, 1, 2, 2]"
      and c = 2 and st = no_arrays]
  have m: "map snd calm_jobs = map snd demo_jobs"
    by (simp add: demo_jobs_def calm_jobs_def)
  have a: "\<forall>k < length demo_jobs. \<forall>xs. fst (fst (calm_jobs ! k) xs) = fst (fst (demo_jobs ! k) xs)"
    by (simp add: demo_jobs_def calm_jobs_def two_phase_job_def failing_job_def nth_Cons split: nat.splits)
  have f: "forget (run [0, 1, 2, 2] (fst (phaseSyncedSettle calm_jobs 2 no_arrays))) = forget ?s"
    using th [THEN conjunct1] m a by blast
  have r: "runnable ?s 0" by code_simp
  have t: "todo (jobMap ?s ! 0) = []" by code_simp
  have n: "\<not> finallyRan (jobMap ?s ! 0)" by code_simp
  have j: "jobs ?s = [0, 1, 2]" by code_simp
  have p: "phasePendingJobs ?s = [0, 1, 2]" by code_simp
  have q: "queuedJobs ?s = [2]" by code_simp
  have w: "work ?s = 6" by code_simp
  have turn: "jobs (job_step 0 ?s) = removeAll 0 (jobs ?s)
          \<and> emitted (job_step 0 ?s) =
              emitted ?s @ JobDone 0 # map Ready
                (if removeAll 0 (phasePendingJobs ?s) = []
                 then take (rel_index 2 (length (removeAll 0 (jobs ?s)))) (removeAll 0 (jobs ?s))
                 else take 1 (removeAll 0 (queuedJobs ?s)))"
    using th [THEN conjunct2, THEN conjunct2, THEN conjunct2, THEN conjunct1, THEN spec, of 0] r t n
    by blast
  have j1: "jobs (job_step 0 ?s) = [1, 2]"
    unfolding turn [THEN conjunct1] j by simp
  have e1: "emitted (job_step 0 ?s) = emitted ?s @ [JobDone 0, Ready 2]"
    unfolding turn [THEN conjunct2] p q by simp
  have g: "aggregate ?s = None"
    unfolding th [THEN conjunct2, THEN conjunct2, THEN conjunct2, THEN conjunct2, THEN conjunct1] w
    by simp
  have "Suc (work (job_step 0 ?s)) = work ?s"
    using th [THEN conjunct2, THEN conjunct2, THEN conjunct2, THEN conjunct2, THEN conjunct2,
        THEN conjunct1, THEN spec, of 0] r by simp
  then have w1: "work (job_step 0 ?s) = 5" unfolding w by simp
  have c: "(1::int) \<le> 2" by simp
  have ps: "\<forall>k < length demo_jobs. protocol_start (fst (fst (demo_jobs ! k) (args_seen demo_jobs no_arrays k)))"
    by (simp add: demo_jobs_def two_phase_job_def failing_job_def protocol_start_def nth_Cons
        split: nat.splits)
  have o: "map (\<lambda>i. snd (fst (demo_jobs ! i) (args_seen demo_jobs no_arrays i))) [0..<length demo_jobs]
      = [Fulfilled 7, Fulfilled 7, Rejected 3]" by code_simp
  have live: "(0 < work ?s \<longrightarrow> (\<exists>k < length demo_jobs. runnable ?s k))
      \<and> (\<exists>more. aggregate (run ([0, 1, 2, 2] @ more) (fst (phaseSyncedSettle demo_jobs 2 no_arrays)))
                   = Some (map (\<lambda>i. snd (fst (demo_jobs ! i) (args_seen demo_jobs no_arrays i)))
                        [0..<length demo_jobs]))"
    using th [THEN conjunct2, THEN conjunct2, THEN conjunct2, THEN conjunct2, THEN conjunct2,
        THEN conjunct2] c ps by blast
  have x: "\<exists>k < length demo_jobs. runnable ?s k"
    using live [THEN conjunct1] w by simp
  have y: "\<exists>more. aggregate (run ([0, 1, 2, 2] @ more) (fst (phaseSyncedSettle demo_jobs 2 no_arrays)))
                = Some [Fulfilled 7, Fulfilled 7, Rejected 3]"
    using live [THEN conjunct2] unfolding o .
  show ?thesis using m f r t q j1 e1 w w1 g x y by (intro conjI)
qed

subsection \<open>C8\<close>

text \<open>
  C8 (invariants of the coordinator sets). At every point of every run, that is after
  every event the coordinator has processed: \<open>phasePendingJobs\<close> and \<open>queuedJobs\<close> are
  subsets of \<open>jobs\<close>; a further turn never adds to \<open>jobs\<close>, which starts as the set of
  all job identities; and a job \<open>i\<close> of the job list is in \<open>jobs\<close> exactly as long as
  no \<open>jobDone i\<close> has been emitted, so that it leaves \<open>jobs\<close> at its termination and
  never comes back.
\<close>

theorem coordinator_sets:
  assumes i: "i < length jl"
  shows "set (phasePendingJobs (run sched (fst (phaseSyncedSettle jl c st))))
           \<subseteq> set (jobs (run sched (fst (phaseSyncedSettle jl c st))))
       \<and> set (queuedJobs (run sched (fst (phaseSyncedSettle jl c st))))
           \<subseteq> set (jobs (run sched (fst (phaseSyncedSettle jl c st))))
       \<and> set (jobs (job_step k (run sched (fst (phaseSyncedSettle jl c st)))))
           \<subseteq> set (jobs (run sched (fst (phaseSyncedSettle jl c st))))
       \<and> set (jobs (fst (phaseSyncedSettle jl c st))) = {0..<length jl}
       \<and> (i \<in> set (jobs (run sched (fst (phaseSyncedSettle jl c st))))) =
           (count_list (emitted (run sched (fst (phaseSyncedSettle jl c st)))) (JobDone i) = 0)"
proof -
  let ?init = "startNewPhase (before_start jl c st)"
  let ?fin = "run sched ?init"
  obtain g where l: "lockstep g ?fin"
    using lockstep_run [OF lockstep_init] by blast
  have once: "callback_once ?fin"
    by (rule callback_once_run) (rule callback_once_init)
  have a: "set (phasePendingJobs ?fin) \<subseteq> set (jobs ?fin)"
    using l by (simp add: lockstep_def)
  have b: "set (queuedJobs ?fin) \<subseteq> set (jobs ?fin)"
    using l by (auto simp add: lockstep_def)
  have m: "set (jobs (job_step k ?fin)) \<subseteq> set (jobs ?fin)"
    by (auto simp add: job_step_jobs)
  have n: "length (jobMap ?fin) = length jl" by (simp add: run_length init_frame)
  have "(i \<in> set (jobs ?fin)) = (\<not> finallyRan (jobMap ?fin ! i))"
    using l i n by (simp add: lockstep_def)
  also have "\<dots> = (count_list (emitted ?fin) (JobDone i) = 0)"
    using once i n by (simp add: callback_once_def)
  finally have d: "(i \<in> set (jobs ?fin)) = (count_list (emitted ?fin) (JobDone i) = 0)" .
  show ?thesis using a b m d by (simp add: phaseSyncedSettle_eq init_frame)
qed

theorem coordinator_sets_witness:
  "2 < length demo_jobs
   \<and> jobs (run [0, 1, 2, 2, 0] (fst (phaseSyncedSettle demo_jobs 2 no_arrays))) = [1, 2]
   \<and> phasePendingJobs (run [0, 1, 2, 2, 0] (fst (phaseSyncedSettle demo_jobs 2 no_arrays))) = [1, 2]
   \<and> queuedJobs (run [0, 1, 2, 2, 0] (fst (phaseSyncedSettle demo_jobs 2 no_arrays))) = []
   \<and> count_list (emitted (run [0, 1, 2, 2, 0] (fst (phaseSyncedSettle demo_jobs 2 no_arrays)))) (JobDone 2) = 0"
proof -
  have i: "2 < length demo_jobs" by (simp add: demo_jobs_def)
  have j: "jobs (run [0, 1, 2, 2, 0] (fst (phaseSyncedSettle demo_jobs 2 no_arrays))) = [1, 2]"
    by code_simp
  have p: "phasePendingJobs (run [0, 1, 2, 2, 0] (fst (phaseSyncedSettle demo_jobs 2 no_arrays))) = [1, 2]"
    by code_simp
  have q: "queuedJobs (run [0, 1, 2, 2, 0] (fst (phaseSyncedSettle demo_jobs 2 no_arrays))) = []"
    by code_simp
  from coordinator_sets [OF i, of "[0, 1, 2, 2, 0]" 2 no_arrays] i j p q show ?thesis by simp
qed

subsection \<open>C9\<close>

text \<open>
  C9 (no double release). In the sequence of events emitted in any run, between two
  \<open>ready\<close> signals sent to the same job \<open>i\<close> there is a \<open>stepDone\<close> or a \<open>jobDone\<close>
  of job \<open>i\<close>.
\<close>

theorem no_double_release:
  assumes "emitted (run sched (fst (phaseSyncedSettle jl c st))) = xs @ Ready i # ys @ Ready i # zs"
  shows "(\<exists>n. StepDone i n \<in> set ys) \<or> JobDone i \<in> set ys"
proof -
  have "release_inv (run sched (startNewPhase (before_start jl c st)))"
    using lockstep_init release_inv_init by (rule release_inv_run)
  then have "ready_ok i False (xs @ Ready i # ys @ Ready i # zs)"
    using assms by (simp add: release_inv_def phaseSyncedSettle_eq)
  then have "reported i ys" by (rule ready_ok_between)
  then show ?thesis by (simp add: reported_def)
qed

theorem no_double_release_witness:
  "emitted (run [0, 1, 2, 2] (fst (phaseSyncedSettle demo_jobs 2 no_arrays)))
     = [] @ Ready 0 # [Ready 1, StepDone 0 1, Ready 2, StepDone 1 1, StepDone 2 1] @ Ready 0 # [Ready 1]
   \<and> ((\<exists>n. StepDone 0 n \<in> set [Ready 1, StepDone 0 1, Ready 2, StepDone 1 1, StepDone 2 1])
      \<or> JobDone 0 \<in> set [Ready 1, StepDone 0 1, Ready 2, StepDone 1 1, StepDone 2 1])"
proof -
  have e: "emitted (run [0, 1, 2, 2] (fst (phaseSyncedSettle demo_jobs 2 no_arrays)))
     = [] @ Ready 0 # [Ready 1, StepDone 0 1, Ready 2, StepDone 1 1, StepDone 2 1] @ Ready 0 # [Ready 1]"
    by code_simp
  from no_double_release [OF e] e show ?thesis by blast
qed

subsection \<open>C10\<close>

text \<open>
  C10 (the argument array is changed in place). For the \<open>i\<close>-th job descriptor, after
  \<open>phaseSyncedSettle\<close> the array of the caller holds, before its old content, the
  handles of all descriptors that name this array, the latest first. So its first element
  is a handle, that of the last descriptor naming the array; when no other descriptor
  names it, the array is the handle \<open>i\<close> followed by the old content. The job function
  was called on the array after the \<^verbatim>\<open>unshift\<close>, its own handle first.
\<close>

theorem args_unshift_in_place:
  assumes "i < length jl"
  shows "snd (phaseSyncedSettle jl c st) (snd (jl ! i)) =
           map Handle (rev (filter (\<lambda>k. snd (jl ! k) = snd (jl ! i)) [0..<length jl])) @ st (snd (jl ! i))
       \<and> (\<exists>k. i \<le> k \<and> k < length jl \<and> snd (jl ! k) = snd (jl ! i)
              \<and> hd (snd (phaseSyncedSettle jl c st) (snd (jl ! i))) = Handle k)
       \<and> (filter (\<lambda>k. snd (jl ! k) = snd (jl ! i)) [0..<length jl] = [i]
            \<longrightarrow> snd (phaseSyncedSettle jl c st) (snd (jl ! i)) = Handle i # st (snd (jl ! i)))
       \<and> outcome (jobMap (fst (phaseSyncedSettle jl c st)) ! i) =
           snd (fst (jl ! i)
             (Handle i # map Handle (rev (filter (\<lambda>k. snd (jl ! k) = snd (jl ! i)) [0..<i])) @ st (snd (jl ! i))))"
proof -
  let ?us = "filter (\<lambda>k. snd (jl ! k) = snd (jl ! i)) [0..<length jl]"
  have a: "snd (phaseSyncedSettle jl c st) (snd (jl ! i)) = map Handle (rev ?us) @ st (snd (jl ! i))"
    by (simp add: phaseSyncedSettle_eq arrays_after_def)
  have mem: "i \<in> set ?us" using assms by simp
  have ne: "?us \<noteq> []" using assms by (auto simp add: filter_empty_conv)
  have lastk: "last ?us \<in> set ?us" using ne by (rule last_in_set)
  have ge: "i \<le> last ?us"
    using mem by (intro sorted_le_last) (simp_all add: sorted_wrt_filter)
  have hdk: "hd (map Handle (rev ?us) @ st (snd (jl ! i))) = Handle (last ?us)"
    using ne by (simp add: hd_append hd_map hd_rev)
  have b: "\<exists>k. i \<le> k \<and> k < length jl \<and> snd (jl ! k) = snd (jl ! i)
              \<and> hd (snd (phaseSyncedSettle jl c st) (snd (jl ! i))) = Handle k"
    using lastk ge hdk a by (intro exI [of _ "last ?us"]) auto
  have d: "outcome (jobMap (fst (phaseSyncedSettle jl c st)) ! i) =
           snd (fst (jl ! i)
             (Handle i # map Handle (rev (filter (\<lambda>k. snd (jl ! k) = snd (jl ! i)) [0..<i])) @ st (snd (jl ! i))))"
    using assms by (simp add: phaseSyncedSettle_eq init_nth boot_fields args_seen_def)
  show ?thesis using a b d by simp
qed

theorem args_unshift_in_place_witness:
  "1 < length demo_jobs
   \<and> snd (phaseSyncedSettle demo_jobs 2 caller_arrays) (snd (demo_jobs ! 1)) = [Handle 1, Val 1]"
proof -
  have i: "1 < length demo_jobs" by (simp add: demo_jobs_def)
  have f: "filter (\<lambda>k. snd (demo_jobs ! k) = snd (demo_jobs ! 1)) [0..<length demo_jobs] = [1]"
    by (simp add: demo_jobs_def upt_rec)
  from args_unshift_in_place [OF i, of 2 caller_arrays] f i show ?thesis
    by (simp add: caller_arrays_def demo_jobs_def)
qed

end
